theory Spec2Isabelle
  imports Main "HOL-Library.Sublist"
begin

section \<open>Conversation turns and model events\<close>

text \<open>
  The orchestrator (\<^verbatim>\<open>submitUserInput\<close> with its inner \<^verbatim>\<open>processEvents\<close>) and the
  generation agent (\<^verbatim>\<open>writer\<close>) are embedded as state-passing functions. What they do to
  the four streams, to the AI state and to the agents they call is recorded, in program
  order, in a trace of events; the array \<^verbatim>\<open>messages\<close> is a field of the state.
\<close>

datatype role = User | Assistant | System | Function | Tool

datatype tool_call = ToolCallPart (toolCallId: string) (toolName: string)

datatype tool_result = ToolResultPart (resultCallId: string) (resultValue: string)

datatype part = TextPart string | CallPart tool_call

text \<open>
  A turn's content is a plain string (user turns, the final assistant turn), a list of
  parts (the assistant turn \<^verbatim>\<open>writer\<close> pushes: one text part, then the tool calls) or a
  list of tool results (the tool turn).
\<close>

datatype content = Text string | Parts "part list" | Results "tool_result list"

record message =
  role :: role
  content :: content

text \<open>
  The events of \<^verbatim>\<open>result.fullStream\<close>. The \<^verbatim>\<open>switch\<close> of \<^verbatim>\<open>writer\<close> has cases for
  \<^verbatim>\<open>text-delta\<close>, \<^verbatim>\<open>tool-call\<close> and \<^verbatim>\<open>error\<close>; its \<^verbatim>\<open>tool-result\<close> case is commented
  out, and every other event (\<^verbatim>\<open>finish\<close>) falls through the switch.
\<close>

datatype delta =
    TextDelta string
  | ToolCallDelta tool_call
  | ToolResultDelta tool_result
  | ErrorDelta
  | FinishDelta

section \<open>Streams, the AI state and the trace\<close>

datatype ui_node =
    NullNode
  | SpinnerNode string
  | BotMessage
  | FollowupPanel
  | SectionNode string ui_node
  | DivNode ui_node
  | AgentNode nat

text \<open>
  Modelled from the spec: the agents \<^verbatim>\<open>inquire\<close> and \<^verbatim>\<open>aiSuggestor\<close> are not in the
  sources. They are handed the UI stream and stream their content into it (spec 4.4, 4.6);
  marking the streams done is the orchestrator's (spec 4.4: "the Orchestrator ... marks
  all exchange streams done"). Their calls on the UI stream are therefore a list of
  updates and appends.
\<close>

datatype ui_op = Update ui_node | Append ui_node

datatype event =
    UiCreate
  | UiUpdate ui_node
  | UiAppend ui_node
  | UiDone
  | GeneratingCreate bool
  | GeneratingDone "bool option"
  | CollapsedCreate bool
  | CollapsedDone "bool option"
  | CodeStreamCreate
  | CodeStreamUpdate string
  | AiStateUpdate "message list"
  | AiStateDone "message list"
  | RequirementsManager "message list"
  | Inquire "message list"
  | StreamText "message list"
  | AiSuggestor "message list"

text \<open>
  \<open>messages\<close> is the array that \<^verbatim>\<open>const messages = aiState.get()\<close> names. The AI state
  hands out its current array itself, so until \<^verbatim>\<open>aiState.update\<close> installs a new array
  the two are one object: \<open>aiState = None\<close> says the AI state still is the array
  \<open>messages\<close>, \<open>Some xs\<close> that it is an array of its own. \<open>calls\<close> counts the
  \<^verbatim>\<open>streamText\<close> calls made so far.
\<close>

record state =
  messages :: "message list"
  aiState :: "message list option"
  calls :: nat
  trace :: "event list"

datatype inquiry = Inquiry (question: "string option")

text \<open>
  The collaborators that are not in the sources are parameters: what
  \<^verbatim>\<open>requirementsManager\<close> resolves to (\<open>None\<close> for null or undefined, otherwise the
  \<^verbatim>\<open>object.next\<close> of its result), what \<^verbatim>\<open>inquire\<close> does to the UI stream and returns
  (\<open>None\<close> for undefined; a question that is \<open>None\<close> for an object without the field),
  the finite event sequence the model answers the k-th \<^verbatim>\<open>streamText\<close> call with, what
  \<^verbatim>\<open>aiSuggestor\<close> does to the UI stream, and
  \<^verbatim>\<open>JSON.stringify(Object.fromEntries(formData))\<close>.
\<close>

record env =
  decision :: "string option"
  inquire_ui :: "ui_op list"
  inquire_result :: "inquiry option"
  streams :: "nat \<Rightarrow> delta list"
  suggestor_ui :: "ui_op list"
  stringify :: "(string \<times> string) list \<Rightarrow> string"

definition emit :: "event list \<Rightarrow> state \<Rightarrow> state" where
  "emit es s = s\<lparr>trace := trace s @ es\<rparr>"

definition push :: "message \<Rightarrow> state \<Rightarrow> state" where
  "push m s = s\<lparr>messages := messages s @ [m]\<rparr>"

definition ai_get :: "state \<Rightarrow> message list" where
  "ai_get s = (case aiState s of None \<Rightarrow> messages s | Some xs \<Rightarrow> xs)"

definition ai_update :: "message list \<Rightarrow> state \<Rightarrow> state" where
  "ai_update xs s = s\<lparr>aiState := Some xs, trace := trace s @ [AiStateUpdate xs]\<rparr>"

definition ai_done :: "message list \<Rightarrow> state \<Rightarrow> state" where
  "ai_done xs s = s\<lparr>aiState := Some xs, trace := trace s @ [AiStateDone xs]\<rparr>"

fun ui_event :: "ui_op \<Rightarrow> event" where
  "ui_event (Update n) = UiUpdate n"
| "ui_event (Append n) = UiAppend n"

section \<open>The generation agent: writer\<close>

definition error_notice :: string where
  "error_notice = CHR 0x0A # ''Error occurred while executing the tool''"

definition codeSection :: ui_node where
  "codeSection = SectionNode ''Code'' BotMessage"

definition generatingSpinner :: ui_node where
  "generatingSpinner = DivNode (SpinnerNode ''Generating code...'')"

record locals =
  fullResponse :: string
  hasError :: bool
  toolCalls :: "tool_call list"
  toolResponses :: "tool_result list"

definition init_locals :: locals where
  "init_locals = \<lparr>fullResponse = [], hasError = False, toolCalls = [], toolResponses = []\<rparr>"

text \<open>
  The body of the \<^verbatim>\<open>for await\<close> loop: the new locals and the calls it makes on the UI
  stream and the code stream, in order. A text delta counts only when it is truthy, that
  is, a non-empty string.
\<close>

fun on_delta :: "delta \<Rightarrow> locals \<Rightarrow> locals \<times> event list" where
  "on_delta (TextDelta t) l =
     (if t \<noteq> [] then
        (let first = (if length (fullResponse l) = 0 \<and> length t > 0
                      then [UiUpdate codeSection, UiAppend generatingSpinner] else []);
             l' = l\<lparr>fullResponse := fullResponse l @ t\<rparr>
         in (l', first @ [CodeStreamUpdate (fullResponse l')]))
      else (l, []))"
| "on_delta (ToolCallDelta c) l = (l\<lparr>toolCalls := toolCalls l @ [c]\<rparr>, [])"
| "on_delta ErrorDelta l =
     (l\<lparr>hasError := True, fullResponse := fullResponse l @ error_notice\<rparr>, [])"
| "on_delta (ToolResultDelta r) l = (l, [])"
| "on_delta FinishDelta l = (l, [])"

fun for_await :: "delta list \<Rightarrow> locals \<Rightarrow> locals \<times> event list" where
  "for_await [] l = (l, [])"
| "for_await (d # ds) l =
     (case on_delta d l of (l1, e1) \<Rightarrow>
        (case for_await ds l1 of (l2, e2) \<Rightarrow> (l2, e1 @ e2)))"

definition assistant_turn :: "locals \<Rightarrow> message" where
  "assistant_turn l =
     \<lparr>role = Assistant,
      content = Parts (TextPart (fullResponse l) # map CallPart (toolCalls l))\<rparr>"

text \<open>
  \<^verbatim>\<open>writer(uiStream, codeStream, messages)\<close>: the \<^verbatim>\<open>streamText\<close> call with the array
  \<^verbatim>\<open>messages\<close>, the loop over the events, the update that removes the spinner, and the
  pushes onto \<^verbatim>\<open>messages\<close>. It returns its locals; the caller reads \<open>fullResponse\<close>,
  \<open>hasError\<close> and \<open>toolResponses\<close>. The local \<^verbatim>\<open>isFirstToolResponse\<close> is only used
  by code that is commented out, and the returned \<^verbatim>\<open>result\<close> is read by no caller.
\<close>

definition writer :: "env \<Rightarrow> state \<Rightarrow> locals \<times> state" where
  "writer e s =
     (let ds = streams e (calls s);
          s0 = emit [StreamText (messages s)] (s\<lparr>calls := Suc (calls s)\<rparr>)
      in case for_await ds init_locals of (l, evs) \<Rightarrow>
        (let s1 = emit evs s0;
             s2 = emit [UiUpdate NullNode] s1;
             s3 = push (assistant_turn l) s2;
             s4 = (if length (toolResponses l) > 0
                   then push \<lparr>role = Tool, content = Results (toolResponses l)\<rparr> s3
                   else s3)
         in (l, s4)))"

section \<open>The orchestrator: submitUserInput and processEvents\<close>

definition maxMessages :: nat where
  "maxMessages = 10"

definition skip_sentinel :: string where
  \<open>skip_sentinel = ''{"action": "skip"}''\<close>

definition thinkingSpinner :: ui_node where
  "thinkingSpinner = SpinnerNode ''Assistant thinking...''"

definition followupSection :: ui_node where
  "followupSection = SectionNode ''Follow-up'' FollowupPanel"

text \<open>
  The run either reaches the end of \<^verbatim>\<open>processEvents\<close> or is still inside the
  \<^verbatim>\<open>while\<close> loop when the attempts it was given are used up.
\<close>

datatype status = Completed | Pending

record loop_vars =
  code :: string
  toolOutputs :: "tool_result list"
  errorOccurred :: bool

definition init_vars :: loop_vars where
  "init_vars = \<lparr>code = [], toolOutputs = [], errorOccurred = False\<rparr>"

text \<open>
  \<^verbatim>\<open>while (code.length === 0) { ... await writer(...) ... }\<close>. The loop has no bound in
  the source; the first argument bounds the number of attempts the model may run, and
  \<open>Pending\<close> says the loop has not exited within them.
\<close>

fun retry_loop :: "nat \<Rightarrow> env \<Rightarrow> loop_vars \<Rightarrow> state \<Rightarrow> status \<times> loop_vars \<times> state" where
  "retry_loop 0 e v s =
     (if length (code v) = 0 then (Pending, v, s) else (Completed, v, s))"
| "retry_loop (Suc n) e v s =
     (if length (code v) = 0 then
        (case writer e s of (r, s') \<Rightarrow>
           retry_loop n e
             \<lparr>code = fullResponse r, toolOutputs = toolResponses r,
              errorOccurred = hasError r\<rparr> s')
      else (Completed, v, s))"

text \<open>Lines 49 to 53: the default action, replaced by the classifier's unless skipped.\<close>

definition decide :: "env \<Rightarrow> bool \<Rightarrow> state \<Rightarrow> string \<times> state" where
  "decide e skip s =
     (if \<not> skip then
        (case decision e of
           None \<Rightarrow> (''proceed'', emit [RequirementsManager (messages s)] s)
         | Some a \<Rightarrow> (a, emit [RequirementsManager (messages s)] s))
      else (''proceed'', s))"

text \<open>The template literal's conversion of \<^verbatim>\<open>inquiry?.question\<close>.\<close>

definition question_text :: "inquiry option \<Rightarrow> string" where
  "question_text i =
     (case i of
        None \<Rightarrow> ''undefined''
      | Some q \<Rightarrow> (case question q of None \<Rightarrow> ''undefined'' | Some t \<Rightarrow> t))"

text \<open>Lines 56 to 66: the inquire branch.\<close>

definition inquire_path :: "env \<Rightarrow> state \<Rightarrow> state" where
  "inquire_path e s =
     (let s1 = emit (Inquire (messages s) # map ui_event (inquire_ui e)) s;
          s2 = emit [UiDone] s1;
          s3 = emit [GeneratingDone None] s2;
          s4 = emit [CollapsedDone (Some False)] s3
      in ai_done
           (ai_get s4 @
            [\<lparr>role = Assistant,
              content = Text (''inquiry: '' @ question_text (inquire_result e))\<rparr>]) s4)"

text \<open>Lines 69 to 106: the generation path.\<close>

definition generate_path :: "nat \<Rightarrow> env \<Rightarrow> state \<Rightarrow> status \<times> state" where
  "generate_path fuel e s =
     (let s1 = emit [CollapsedDone (Some True)] s;
          s2 = emit [CodeStreamCreate] s1;
          s3 = emit [UiUpdate thinkingSpinner] s2
      in case retry_loop fuel e init_vars s3 of
           (Pending, v, s4) \<Rightarrow> (Pending, s4)
         | (Completed, v, s4) \<Rightarrow>
             (let s5 = (if \<not> errorOccurred v
                        then emit [UiAppend followupSection]
                               (emit (AiSuggestor (messages s4) # map ui_event (suggestor_ui e)) s4)
                        else s4);
                  s6 = emit [GeneratingDone (Some False)] s5;
                  s7 = emit [UiDone] s6
              in (Completed,
                  ai_done
                    (ai_get s7 @ [\<lparr>role = Assistant, content = Text (code v)\<rparr>]) s7)))"

definition processEvents :: "nat \<Rightarrow> env \<Rightarrow> bool \<Rightarrow> state \<Rightarrow> status \<times> state" where
  "processEvents fuel e skip s =
     (case decide e skip s of (action, s1) \<Rightarrow>
        if action = ''inquire'' then (Completed, inquire_path e s1)
        else generate_path fuel e s1)"

text \<open>
  Lines 23 to 46: the streams are created, the array is cut to its last \<open>maxMessages\<close>
  turns in place, and the user turn is pushed onto \<open>messages\<close> and written to the AI
  state when \<^verbatim>\<open>content\<close> is truthy (not null and not the empty string). The push comes
  first, and the AI state is still the array \<open>messages\<close> then, so the array given to
  \<^verbatim>\<open>aiState.update\<close> holds the user turn twice. \<^verbatim>\<open>userInput\<close> is read only when
  \<^verbatim>\<open>skip\<close> is set. A form is the list of its entries.
\<close>

definition user_content :: "env \<Rightarrow> (string \<times> string) list option \<Rightarrow> bool \<Rightarrow> string option" where
  "user_content e formData skip =
     (let userInput = (if skip then Some skip_sentinel
                       else (case formData of None \<Rightarrow> None | Some fd \<Rightarrow> map_of fd ''input''))
      in if skip then userInput
         else (case formData of Some fd \<Rightarrow> Some (stringify e fd) | None \<Rightarrow> None))"

definition prepare :: "env \<Rightarrow> message list \<Rightarrow> (string \<times> string) list option \<Rightarrow> bool \<Rightarrow> state" where
  "prepare e ms formData skip =
     (let s0 = \<lparr>messages = drop (length ms - maxMessages) ms, aiState = None, calls = 0,
                trace = [UiCreate, GeneratingCreate True, CollapsedCreate False]\<rparr>
      in case user_content e formData skip of
           None \<Rightarrow> s0
         | Some c \<Rightarrow>
             if c \<noteq> [] then
               (let m = \<lparr>role = User, content = Text c\<rparr>;
                    s1 = push m s0
                in ai_update (ai_get s1 @ [m]) s1)
             else s0)"

text \<open>
  \<^verbatim>\<open>submitUserInput\<close> starts \<^verbatim>\<open>processEvents\<close> without awaiting it and returns the
  handles of the three streams at once; what the caller can observe through them is what
  the trace records. The first argument is the number of writer attempts the run is
  followed for.
\<close>

definition submitUserInput ::
  "nat \<Rightarrow> env \<Rightarrow> message list \<Rightarrow> (string \<times> string) list option \<Rightarrow> bool \<Rightarrow> status \<times> state" where
  "submitUserInput fuel e ms formData skip = processEvents fuel e skip (prepare e ms formData skip)"

section \<open>Observations on attempts and traces\<close>

text \<open>What one attempt on an event sequence leaves in the text buffer, and what it emits.\<close>

definition writer_text :: "delta list \<Rightarrow> string" where
  "writer_text ds = fullResponse (fst (for_await ds init_locals))"

definition writer_events :: "delta list \<Rightarrow> event list" where
  "writer_events ds = snd (for_await ds init_locals)"

text \<open>What a single event adds to the text buffer.\<close>

fun delta_text :: "delta \<Rightarrow> string" where
  "delta_text (TextDelta t) = t"
| "delta_text ErrorDelta = error_notice"
| "delta_text _ = []"

fun text_fragments :: "delta list \<Rightarrow> string list" where
  "text_fragments [] = []"
| "text_fragments (TextDelta t # ds) = (if t \<noteq> [] then t # text_fragments ds else text_fragments ds)"
| "text_fragments (d # ds) = text_fragments ds"

fun tool_calls_of :: "delta list \<Rightarrow> tool_call list" where
  "tool_calls_of [] = []"
| "tool_calls_of (ToolCallDelta c # ds) = c # tool_calls_of ds"
| "tool_calls_of (d # ds) = tool_calls_of ds"

text \<open>The concatenations of the first one, two, ... fragments, each on top of \<open>acc\<close>.\<close>

fun running_concat :: "string \<Rightarrow> string list \<Rightarrow> string list" where
  "running_concat acc [] = []"
| "running_concat acc (t # ts) = (acc @ t) # running_concat (acc @ t) ts"

text \<open>The turn the k-th attempt pushes onto \<open>messages\<close>.\<close>

definition attempt_turn :: "env \<Rightarrow> nat \<Rightarrow> message" where
  "attempt_turn e k = assistant_turn (fst (for_await (streams e k) init_locals))"

fun attempt_turns :: "env \<Rightarrow> nat \<Rightarrow> nat \<Rightarrow> message list" where
  "attempt_turns e k 0 = []"
| "attempt_turns e k (Suc n) = attempt_turn e k # attempt_turns e (Suc k) n"

text \<open>
  The trace of \<open>n\<close> attempts made one after the other, from the k-th \<^verbatim>\<open>streamText\<close>
  call on with \<open>ms\<close> in \<open>messages\<close>: all the events of an attempt, from its model call
  to the update that removes its spinner, come before the first event of the next.
\<close>

fun sequential_attempts :: "env \<Rightarrow> nat \<Rightarrow> nat \<Rightarrow> message list \<Rightarrow> event list" where
  "sequential_attempts e k 0 ms = []"
| "sequential_attempts e k (Suc n) ms =
     StreamText ms # writer_events (streams e k) @
     UiUpdate NullNode # sequential_attempts e (Suc k) n (ms @ [attempt_turn e k])"

fun is_streamText :: "event \<Rightarrow> bool" where
  "is_streamText (StreamText ms) = True"
| "is_streamText _ = False"

definition attempts :: "event list \<Rightarrow> nat" where
  "attempts tr = length (filter is_streamText tr)"

fun code_update :: "event \<Rightarrow> string option" where
  "code_update (CodeStreamUpdate v) = Some v"
| "code_update _ = None"

definition code_updates :: "event list \<Rightarrow> string list" where
  "code_updates tr = List.map_filter code_update tr"

fun committed_state :: "event \<Rightarrow> message list option" where
  "committed_state (AiStateDone xs) = Some xs"
| "committed_state _ = None"

definition committed :: "event list \<Rightarrow> message list list" where
  "committed tr = List.map_filter committed_state tr"

text \<open>The turn lists handed to the agents, in call order.\<close>

fun agent_input :: "event \<Rightarrow> message list option" where
  "agent_input (RequirementsManager ms) = Some ms"
| "agent_input (Inquire ms) = Some ms"
| "agent_input (StreamText ms) = Some ms"
| "agent_input (AiSuggestor ms) = Some ms"
| "agent_input _ = None"

definition agent_inputs :: "event list \<Rightarrow> message list list" where
  "agent_inputs tr = List.map_filter agent_input tr"

datatype stream = UiStream | IsGenerating | IsCollapsed | CodeStream

fun is_done :: "stream \<Rightarrow> event \<Rightarrow> bool" where
  "is_done UiStream UiDone = True"
| "is_done IsGenerating (GeneratingDone v) = True"
| "is_done IsCollapsed (CollapsedDone v) = True"
| "is_done x ev = False"

fun is_write :: "stream \<Rightarrow> event \<Rightarrow> bool" where
  "is_write UiStream (UiUpdate n) = True"
| "is_write UiStream (UiAppend n) = True"
| "is_write CodeStream (CodeStreamUpdate v) = True"
| "is_write x ev = False"

fun on_stream :: "stream \<Rightarrow> event \<Rightarrow> bool" where
  "on_stream UiStream UiCreate = True"
| "on_stream IsGenerating (GeneratingCreate b) = True"
| "on_stream IsCollapsed (CollapsedCreate b) = True"
| "on_stream CodeStream CodeStreamCreate = True"
| "on_stream x ev = (is_done x ev \<or> is_write x ev)"

text \<open>
  Done is called on the stream exactly once, and nothing is written to the stream from
  that call on.
\<close>

definition done_once :: "stream \<Rightarrow> event list \<Rightarrow> bool" where
  "done_once x tr =
     (length (filter (is_done x) tr) = 1 \<and>
      filter (is_write x) (dropWhile (\<lambda>ev. \<not> is_done x ev) tr) = [])"

text \<open>
  Done is called on the stream at most once, and nothing is written to the stream from
  that call on.
\<close>

definition done_at_most_once :: "stream \<Rightarrow> event list \<Rightarrow> bool" where
  "done_at_most_once x tr =
     (length (filter (is_done x) tr) \<le> 1 \<and>
      filter (is_write x) (dropWhile (\<lambda>ev. \<not> is_done x ev) tr) = [])"

text \<open>
  Modelled from the spec: the streamable value of \<^verbatim>\<open>ai/rsc\<close> is not in the sources. By
  spec 4.1 a stream holds a current value, \<^verbatim>\<open>done(finalValue?)\<close> sets the terminal value
  and marks the stream done; called without a final value it leaves the current value as
  the terminal one. The functions replay a trace on the two flag streams.
\<close>

fun isGenerating_value :: "bool option \<Rightarrow> event list \<Rightarrow> bool option" where
  "isGenerating_value v [] = v"
| "isGenerating_value v (GeneratingCreate b # tr) = isGenerating_value (Some b) tr"
| "isGenerating_value v (GeneratingDone (Some b) # tr) = isGenerating_value (Some b) tr"
| "isGenerating_value v (ev # tr) = isGenerating_value v tr"

fun isCollapsed_value :: "bool option \<Rightarrow> event list \<Rightarrow> bool option" where
  "isCollapsed_value v [] = v"
| "isCollapsed_value v (CollapsedCreate b # tr) = isCollapsed_value (Some b) tr"
| "isCollapsed_value v (CollapsedDone (Some b) # tr) = isCollapsed_value (Some b) tr"
| "isCollapsed_value v (ev # tr) = isCollapsed_value v tr"

fun is_requirementsManager :: "event \<Rightarrow> bool" where
  "is_requirementsManager (RequirementsManager ms) = True"
| "is_requirementsManager _ = False"

fun is_inquire :: "event \<Rightarrow> bool" where
  "is_inquire (Inquire ms) = True"
| "is_inquire _ = False"

fun is_aiSuggestor :: "event \<Rightarrow> bool" where
  "is_aiSuggestor (AiSuggestor ms) = True"
| "is_aiSuggestor _ = False"


section \<open>Example inputs\<close>

text \<open>
  An environment with the given classifier answer, inquiry result and model answers; both
  agents make one call on the UI stream.
\<close>

definition scenario_json :: string where
  \<open>scenario_json = ''{"input":"Write an ERC20 token"}''\<close>

definition example_env :: "string option \<Rightarrow> inquiry option \<Rightarrow> (nat \<Rightarrow> delta list) \<Rightarrow> env" where
  "example_env d q st =
     \<lparr>decision = d, inquire_ui = [Update (AgentNode 0)], inquire_result = q, streams = st,
      suggestor_ui = [Append (AgentNode 1)], stringify = (\<lambda>fd. scenario_json)\<rparr>"

text \<open>The model answers the first call with nothing and every later call with two fragments.\<close>

definition retry_streams :: "nat \<Rightarrow> delta list" where
  "retry_streams k = (if k = 0 then [] else [TextDelta ''pragma '', TextDelta ''solidity ^0.8.0;''])"

text \<open>The model never produces any text.\<close>

definition silent_streams :: "nat \<Rightarrow> delta list" where
  "silent_streams k = [FinishDelta]"

text \<open>The model answers every call with a fragment, an error and a tool call.\<close>

definition error_streams :: "nat \<Rightarrow> delta list" where
  "error_streams k =
     [TextDelta ''contract'', ErrorDelta, ToolCallDelta (ToolCallPart ''c1'' ''search'')]"


text \<open>The model answers every call with a tool call, a tool result and a fragment.\<close>

definition tool_streams :: "nat \<Rightarrow> delta list" where
  "tool_streams k =
     [ToolCallDelta (ToolCallPart ''c1'' ''search''),
      ToolResultDelta (ToolResultPart ''c1'' ''tip''), TextDelta ''x'']"

definition user_turn :: "string \<Rightarrow> message" where
  "user_turn c = \<lparr>role = User, content = Text c\<rparr>"

definition start_state :: state where
  "start_state = \<lparr>messages = [], aiState = None, calls = 0, trace = []\<rparr>"

text \<open>A retained turn list of twelve turns.\<close>

definition long_history :: "message list" where
  "long_history = map (\<lambda>k. user_turn (replicate k CHR ''a'')) [0..<12]"


text \<open>
  The model answers every call with the two fragments of the scenario of spec 8, and the
  scenario in which the classifier asks for an inquiry and the inquiry agent returns a
  question.
\<close>

definition fragment_streams :: "nat \<Rightarrow> delta list" where
  "fragment_streams k = [TextDelta ''pragma '', TextDelta ''solidity ^0.8.0;'']"

definition scenario_env :: env where
  "scenario_env =
     example_env (Some ''inquire'') (Some (Inquiry (Some ''What should the token symbol be?'')))
       fragment_streams"

definition scenario_form :: "(string \<times> string) list" where
  "scenario_form = [(''input'', ''Write an ERC20 token'')]"

text \<open>
  The model answers every call with the two fragments followed by the event that closes
  the stream.
\<close>

definition finished_streams :: "nat \<Rightarrow> delta list" where
  "finished_streams k = [TextDelta ''pragma '', TextDelta ''solidity ^0.8.0;'', FinishDelta]"

section \<open>Auxiliary facts\<close>

text \<open>
  The state after each operation, what the loop over a model stream leaves in the locals,
  and the trace of a run in closed form: for a run that is still in the retry loop and for
  a run that has left it after its first attempt with a non-empty text.
\<close>

lemma trace_emit [simp]: "trace (emit es s) = trace s @ es"
  and messages_emit [simp]: "messages (emit es s) = messages s"
  and aiState_emit [simp]: "aiState (emit es s) = aiState s"
  and calls_emit [simp]: "calls (emit es s) = calls s"
  by (simp_all add: emit_def)

lemma trace_push [simp]: "trace (push m s) = trace s"
  and messages_push [simp]: "messages (push m s) = messages s @ [m]"
  and aiState_push [simp]: "aiState (push m s) = aiState s"
  and calls_push [simp]: "calls (push m s) = calls s"
  by (simp_all add: push_def)

lemma trace_ai_done [simp]: "trace (ai_done xs s) = trace s @ [AiStateDone xs]"
  and messages_ai_done [simp]: "messages (ai_done xs s) = messages s"
  and aiState_ai_done [simp]: "aiState (ai_done xs s) = Some xs"
  and calls_ai_done [simp]: "calls (ai_done xs s) = calls s"
  by (simp_all add: ai_done_def)

lemma trace_ai_update [simp]: "trace (ai_update xs s) = trace s @ [AiStateUpdate xs]"
  and messages_ai_update [simp]: "messages (ai_update xs s) = messages s"
  and aiState_ai_update [simp]: "aiState (ai_update xs s) = Some xs"
  and calls_ai_update [simp]: "calls (ai_update xs s) = calls s"
  by (simp_all add: ai_update_def)

lemma ai_get_emit [simp]: "ai_get (emit es s) = ai_get s"
  by (simp add: ai_get_def split: option.splits)

lemma fst_for_await_Cons: "fst (for_await (d # ds) l) = fst (for_await ds (fst (on_delta d l)))"
  by (simp add: case_prod_beta)

lemma snd_for_await_Cons:
  "snd (for_await (d # ds) l) = snd (on_delta d l) @ snd (for_await ds (fst (on_delta d l)))"
  by (simp add: case_prod_beta)

lemma for_await_append:
  "for_await (xs @ ys) l =
     (case for_await xs l of (l1, e1) \<Rightarrow>
        (case for_await ys l1 of (l2, e2) \<Rightarrow> (l2, e1 @ e2)))"
  by (induction xs arbitrary: l) (auto split: prod.splits)

lemma toolResponses_on_delta: "toolResponses (fst (on_delta d l)) = toolResponses l"
  by (cases d) (auto simp: Let_def)

lemma toolResponses_for_await: "toolResponses (fst (for_await ds l)) = toolResponses l"
proof (induction ds arbitrary: l)
  case Nil
  show ?case by simp
next
  case (Cons d ds)
  have "toolResponses (fst (for_await ds (fst (on_delta d l)))) = toolResponses l"
    using Cons.IH [of "fst (on_delta d l)"] by (simp add: toolResponses_on_delta)
  then show ?case by (simp add: fst_for_await_Cons del: for_await.simps)
qed

lemma toolCalls_on_delta: "toolCalls (fst (on_delta d l)) = toolCalls l @ tool_calls_of [d]"
  by (cases d) (auto simp: Let_def)

lemma tool_calls_of_Cons: "tool_calls_of (d # ds) = tool_calls_of [d] @ tool_calls_of ds"
  by (cases d) auto

lemma toolCalls_for_await: "toolCalls (fst (for_await ds l)) = toolCalls l @ tool_calls_of ds"
proof (induction ds arbitrary: l)
  case Nil
  show ?case by simp
next
  case (Cons d ds)
  have "toolCalls (fst (for_await ds (fst (on_delta d l)))) =
        toolCalls l @ tool_calls_of [d] @ tool_calls_of ds"
    using Cons.IH [of "fst (on_delta d l)"] by (simp add: toolCalls_on_delta)
  then show ?case
    using tool_calls_of_Cons [of d ds] by (simp add: fst_for_await_Cons del: for_await.simps)
qed

lemma fullResponse_on_delta: "fullResponse (fst (on_delta d l)) = fullResponse l @ delta_text d"
  by (cases d) (auto simp: Let_def)

lemma fullResponse_for_await:
  "fullResponse (fst (for_await ds l)) = fullResponse l @ concat (map delta_text ds)"
proof (induction ds arbitrary: l)
  case Nil
  show ?case by simp
next
  case (Cons d ds)
  have "fullResponse (fst (for_await ds (fst (on_delta d l)))) =
        fullResponse l @ delta_text d @ concat (map delta_text ds)"
    using Cons.IH [of "fst (on_delta d l)"] by (simp add: fullResponse_on_delta)
  then show ?case by (simp add: fst_for_await_Cons del: for_await.simps)
qed

lemma hasError_on_delta: "hasError (fst (on_delta d l)) = (hasError l \<or> d = ErrorDelta)"
  by (cases d) (auto simp: Let_def)

lemma hasError_for_await: "hasError (fst (for_await ds l)) = (hasError l \<or> ErrorDelta \<in> set ds)"
proof (induction ds arbitrary: l)
  case Nil
  show ?case by simp
next
  case (Cons d ds)
  have "hasError (fst (for_await ds (fst (on_delta d l)))) =
        (hasError l \<or> d = ErrorDelta \<or> ErrorDelta \<in> set ds)"
    using Cons.IH [of "fst (on_delta d l)"] by (simp add: hasError_on_delta)
  then show ?case by (auto simp: fst_for_await_Cons simp del: for_await.simps)
qed

lemma error_notice_nonempty: "error_notice \<noteq> []"
  by (simp add: error_notice_def)

lemma writer_text_eq: "writer_text ds = concat (map delta_text ds)"
  by (simp add: writer_text_def fullResponse_for_await init_locals_def)

lemma error_text_nonempty: "ErrorDelta \<in> set ds \<Longrightarrow> writer_text ds \<noteq> []"
proof -
  assume "ErrorDelta \<in> set ds"
  then have "\<exists>d\<in>set ds. delta_text d \<noteq> []"
    using error_notice_nonempty by (intro bexI [of _ ErrorDelta]) simp_all
  then show ?thesis
    by (simp add: writer_text_eq)
qed

lemma writer_fst: "fst (writer e s) = fst (for_await (streams e (calls s)) init_locals)"
  by (simp add: writer_def Let_def split: prod.splits)

lemma writer_snd:
  "snd (writer e s) =
     s\<lparr>messages := messages s @ [attempt_turn e (calls s)],
       calls := Suc (calls s),
       trace := trace s @ StreamText (messages s) # writer_events (streams e (calls s)) @
                [UiUpdate NullNode]\<rparr>"
proof -
  obtain l evs where fa: "for_await (streams e (calls s)) init_locals = (l, evs)"
    by (cases "for_await (streams e (calls s)) init_locals")
  have "toolResponses l = []"
    using toolResponses_for_await [of "streams e (calls s)" init_locals] fa
    by (simp add: init_locals_def)
  then show ?thesis
    using fa by (simp add: writer_def Let_def emit_def push_def attempt_turn_def writer_events_def)
qed


lemma vars_of_empty:
  assumes "writer_text ds = []"
  shows "\<lparr>code = fullResponse (fst (for_await ds init_locals)),
          toolOutputs = toolResponses (fst (for_await ds init_locals)),
          errorOccurred = hasError (fst (for_await ds init_locals))\<rparr> = init_vars"
proof -
  have "ErrorDelta \<notin> set ds"
    using assms error_text_nonempty by blast
  then have "\<not> hasError (fst (for_await ds init_locals))"
    by (simp add: hasError_for_await init_locals_def)
  moreover have "toolResponses (fst (for_await ds init_locals)) = []"
    by (simp add: toolResponses_for_await init_locals_def)
  ultimately show ?thesis
    using assms by (simp add: init_vars_def writer_text_def)
qed

lemma retry_loop_Suc_init:
  "retry_loop (Suc n) e init_vars s =
     retry_loop n e
       \<lparr>code = fullResponse (fst (writer e s)), toolOutputs = toolResponses (fst (writer e s)),
        errorOccurred = hasError (fst (writer e s))\<rparr> (snd (writer e s))"
  by (simp add: init_vars_def case_prod_beta)

lemma retry_loop_exit: "code v \<noteq> [] \<Longrightarrow> retry_loop n e v s = (Completed, v, s)"
  by (cases n) simp_all

lemma retry_empty:
  "(\<forall>j<n. writer_text (streams e (calls s + j)) = []) \<Longrightarrow>
   retry_loop (n + m) e init_vars s =
   retry_loop m e init_vars
     (s\<lparr>messages := messages s @ attempt_turns e (calls s) n,
        calls := calls s + n,
        trace := trace s @ sequential_attempts e (calls s) n (messages s)\<rparr>)"
proof (induction n arbitrary: s)
  case 0
  show ?case by simp
next
  case (Suc n)
  let ?s1 = "snd (writer e s)"
  have first: "writer_text (streams e (calls s)) = []"
    using Suc.prems by force
  have rest: "\<forall>j<n. writer_text (streams e (calls ?s1 + j)) = []"
  proof (intro allI impI)
    fix j assume "j < n"
    then have "writer_text (streams e (calls s + Suc j)) = []"
      using Suc.prems by blast
    then show "writer_text (streams e (calls ?s1 + j)) = []"
      by (simp add: writer_snd)
  qed
  have "retry_loop (Suc n + m) e init_vars s = retry_loop (n + m) e init_vars ?s1"
    using vars_of_empty [OF first] by (simp add: retry_loop_Suc_init writer_fst del: retry_loop.simps)
  also have "\<dots> = retry_loop m e init_vars
     (?s1\<lparr>messages := messages ?s1 @ attempt_turns e (calls ?s1) n,
        calls := calls ?s1 + n,
        trace := trace ?s1 @ sequential_attempts e (calls ?s1) n (messages ?s1)\<rparr>)"
    by (rule Suc.IH [OF rest])
  also have "?s1\<lparr>messages := messages ?s1 @ attempt_turns e (calls ?s1) n,
        calls := calls ?s1 + n,
        trace := trace ?s1 @ sequential_attempts e (calls ?s1) n (messages ?s1)\<rparr> =
     s\<lparr>messages := messages s @ attempt_turns e (calls s) (Suc n),
        calls := calls s + Suc n,
        trace := trace s @ sequential_attempts e (calls s) (Suc n) (messages s)\<rparr>"
    by (simp add: writer_snd)
  finally show ?case .
qed

lemma retry_pending:
  assumes "\<forall>j<n. writer_text (streams e (calls s + j)) = []"
  shows "retry_loop n e init_vars s =
     (Pending, init_vars,
      s\<lparr>messages := messages s @ attempt_turns e (calls s) n,
        calls := calls s + n,
        trace := trace s @ sequential_attempts e (calls s) n (messages s)\<rparr>)"
  using retry_empty [OF assms, of 0] by (simp add: init_vars_def)

lemma retry_accept:
  assumes "writer_text (streams e (calls s)) \<noteq> []"
  shows "retry_loop (Suc m) e init_vars s =
     (Completed,
      \<lparr>code = writer_text (streams e (calls s)), toolOutputs = [],
       errorOccurred = (ErrorDelta \<in> set (streams e (calls s)))\<rparr>,
      snd (writer e s))"
proof -
  have "retry_loop (Suc m) e init_vars s =
     retry_loop m e
       \<lparr>code = writer_text (streams e (calls s)), toolOutputs = [],
        errorOccurred = (ErrorDelta \<in> set (streams e (calls s)))\<rparr> (snd (writer e s))"
    by (simp add: retry_loop_Suc_init writer_fst writer_text_def toolResponses_for_await
        hasError_for_await init_locals_def del: retry_loop.simps)
  then show ?thesis
    using assms by (simp add: retry_loop_exit del: retry_loop.simps)
qed

lemma attempt_turns_snoc:
  "attempt_turns e k (Suc n) = attempt_turns e k n @ [attempt_turn e (k + n)]"
  by (induction n arbitrary: k) simp_all

lemma sequential_attempts_snoc:
  "sequential_attempts e k (Suc n) ms =
     sequential_attempts e k n ms @
     StreamText (ms @ attempt_turns e k n) # writer_events (streams e (k + n)) @ [UiUpdate NullNode]"
proof (induction n arbitrary: k ms)
  case 0
  show ?case by simp
next
  case (Suc n)
  have "sequential_attempts e k (Suc (Suc n)) ms =
        StreamText ms # writer_events (streams e k) @
        UiUpdate NullNode # sequential_attempts e (Suc k) (Suc n) (ms @ [attempt_turn e k])"
    by simp
  also have "sequential_attempts e (Suc k) (Suc n) (ms @ [attempt_turn e k]) =
     sequential_attempts e (Suc k) n (ms @ [attempt_turn e k]) @
     StreamText ((ms @ [attempt_turn e k]) @ attempt_turns e (Suc k) n) #
     writer_events (streams e (Suc k + n)) @ [UiUpdate NullNode]"
    by (rule Suc.IH)
  finally show ?case by simp
qed

lemma retry_exit:
  assumes empty: "\<forall>j<n. writer_text (streams e (calls s + j)) = []"
      and nonempty: "writer_text (streams e (calls s + n)) \<noteq> []"
  shows "retry_loop (Suc n + m) e init_vars s =
     (Completed,
      \<lparr>code = writer_text (streams e (calls s + n)), toolOutputs = [],
       errorOccurred = (ErrorDelta \<in> set (streams e (calls s + n)))\<rparr>,
      s\<lparr>messages := messages s @ attempt_turns e (calls s) (Suc n),
        calls := calls s + Suc n,
        trace := trace s @ sequential_attempts e (calls s) (Suc n) (messages s)\<rparr>)"
proof -
  let ?s1 = "s\<lparr>messages := messages s @ attempt_turns e (calls s) n,
        calls := calls s + n,
        trace := trace s @ sequential_attempts e (calls s) n (messages s)\<rparr>"
  have "retry_loop (n + Suc m) e init_vars s = retry_loop (Suc m) e init_vars ?s1"
    by (rule retry_empty [OF empty])
  moreover have "retry_loop (Suc m) e init_vars ?s1 =
     (Completed,
      \<lparr>code = writer_text (streams e (calls ?s1)), toolOutputs = [],
       errorOccurred = (ErrorDelta \<in> set (streams e (calls ?s1)))\<rparr>,
      snd (writer e ?s1))"
    using nonempty by (intro retry_accept) simp
  moreover have "snd (writer e ?s1) =
      s\<lparr>messages := messages s @ attempt_turns e (calls s) (Suc n),
        calls := calls s + Suc n,
        trace := trace s @ sequential_attempts e (calls s) (Suc n) (messages s)\<rparr>"
    by (simp add: writer_snd attempt_turns_snoc sequential_attempts_snoc
        del: attempt_turns.simps sequential_attempts.simps)
  ultimately show ?thesis by simp
qed

lemma decide_fst: "fst (decide e skip s) = (if skip then ''proceed'' else (case decision e of None \<Rightarrow> ''proceed'' | Some a \<Rightarrow> a))"
  by (simp add: decide_def split: option.splits)

lemma decide_snd: "snd (decide e skip s) = (if skip then s else emit [RequirementsManager (messages s)] s)"
  by (simp add: decide_def split: option.splits)

lemma decide_generate:
  "skip \<or> decision e \<noteq> Some ''inquire'' \<Longrightarrow> fst (decide e skip s) \<noteq> ''inquire''"
  by (auto simp: decide_fst split: option.splits)

lemma processEvents_generate:
  assumes "skip \<or> decision e \<noteq> Some ''inquire''"
  shows "processEvents fuel e skip s = generate_path fuel e (snd (decide e skip s))"
  using decide_generate [OF assms, of s] by (simp add: processEvents_def case_prod_beta)

lemma processEvents_inquire:
  assumes "\<not> skip" and "decision e = Some ''inquire''"
  shows "processEvents fuel e skip s =
         (Completed, inquire_path e (emit [RequirementsManager (messages s)] s))"
  using assms by (simp add: processEvents_def case_prod_beta decide_fst decide_snd)

lemma generate_path_exit:
  assumes empty: "\<forall>j<n. writer_text (streams e (calls s + j)) = []"
      and nonempty: "writer_text (streams e (calls s + n)) \<noteq> []"
  shows "fst (generate_path (Suc n + m) e s) = Completed"
    and "trace (snd (generate_path (Suc n + m) e s)) =
         trace s @ [CollapsedDone (Some True), CodeStreamCreate, UiUpdate thinkingSpinner] @
         sequential_attempts e (calls s) (Suc n) (messages s) @
         (if ErrorDelta \<in> set (streams e (calls s + n)) then []
          else AiSuggestor (messages s @ attempt_turns e (calls s) (Suc n)) #
               map ui_event (suggestor_ui e) @ [UiAppend followupSection]) @
         [GeneratingDone (Some False), UiDone,
          AiStateDone ((case aiState s of None \<Rightarrow> messages s @ attempt_turns e (calls s) (Suc n) | Some xs \<Rightarrow> xs) @
            [\<lparr>role = Assistant, content = Text (writer_text (streams e (calls s + n)))\<rparr>])]"
    and "messages (snd (generate_path (Suc n + m) e s)) = messages s @ attempt_turns e (calls s) (Suc n)"
proof -
  let ?s3 = "emit [UiUpdate thinkingSpinner] (emit [CodeStreamCreate] (emit [CollapsedDone (Some True)] s))"
  have e3: "\<forall>j<n. writer_text (streams e (calls ?s3 + j)) = []"
    using empty by simp
  have n3: "writer_text (streams e (calls ?s3 + n)) \<noteq> []"
    using nonempty by simp
  note r = retry_exit [OF e3 n3, of m]
  show "fst (generate_path (Suc n + m) e s) = Completed"
    unfolding generate_path_def Let_def r by simp
  show "trace (snd (generate_path (Suc n + m) e s)) =
         trace s @ [CollapsedDone (Some True), CodeStreamCreate, UiUpdate thinkingSpinner] @
         sequential_attempts e (calls s) (Suc n) (messages s) @
         (if ErrorDelta \<in> set (streams e (calls s + n)) then []
          else AiSuggestor (messages s @ attempt_turns e (calls s) (Suc n)) #
               map ui_event (suggestor_ui e) @ [UiAppend followupSection]) @
         [GeneratingDone (Some False), UiDone,
          AiStateDone ((case aiState s of None \<Rightarrow> messages s @ attempt_turns e (calls s) (Suc n) | Some xs \<Rightarrow> xs) @
            [\<lparr>role = Assistant, content = Text (writer_text (streams e (calls s + n)))\<rparr>])]"
    unfolding generate_path_def Let_def r
    by (simp add: ai_get_def del: sequential_attempts.simps attempt_turns.simps split: option.splits)
  show "messages (snd (generate_path (Suc n + m) e s)) = messages s @ attempt_turns e (calls s) (Suc n)"
    unfolding generate_path_def Let_def r
    by (simp del: sequential_attempts.simps attempt_turns.simps)
qed

lemma generate_path_pending:
  assumes empty: "\<forall>j<n. writer_text (streams e (calls s + j)) = []"
  shows "fst (generate_path n e s) = Pending"
    and "trace (snd (generate_path n e s)) =
         trace s @ [CollapsedDone (Some True), CodeStreamCreate, UiUpdate thinkingSpinner] @
         sequential_attempts e (calls s) n (messages s)"
proof -
  let ?s3 = "emit [UiUpdate thinkingSpinner] (emit [CodeStreamCreate] (emit [CollapsedDone (Some True)] s))"
  have e3: "\<forall>j<n. writer_text (streams e (calls ?s3 + j)) = []"
    using empty by simp
  note r = retry_pending [OF e3]
  show "fst (generate_path n e s) = Pending"
    unfolding generate_path_def Let_def r by simp
  show "trace (snd (generate_path n e s)) =
         trace s @ [CollapsedDone (Some True), CodeStreamCreate, UiUpdate thinkingSpinner] @
         sequential_attempts e (calls s) n (messages s)"
    unfolding generate_path_def Let_def r by simp
qed

lemma inquire_path_trace:
  "trace (inquire_path e s) =
     trace s @ Inquire (messages s) # map ui_event (inquire_ui e) @
     [UiDone, GeneratingDone None, CollapsedDone (Some False),
      AiStateDone (ai_get s @
        [\<lparr>role = Assistant, content = Text (''inquiry: '' @ question_text (inquire_result e))\<rparr>])]"
  by (simp add: inquire_path_def Let_def)

lemma calls_prepare: "calls (prepare e ms fd skip) = 0"
  by (simp add: prepare_def Let_def split: option.splits)

lemma calls_decide: "calls (snd (decide e skip s)) = calls s"
  by (simp add: decide_snd)

lemma messages_decide: "messages (snd (decide e skip s)) = messages s"
  by (simp add: decide_snd)

lemma aiState_decide: "aiState (snd (decide e skip s)) = aiState s"
  by (simp add: decide_snd)

lemma on_delta_writes:
  "ev \<in> set (snd (on_delta d l)) \<Longrightarrow> is_write UiStream ev \<or> is_write CodeStream ev"
  by (cases d) (auto simp: Let_def split: if_splits)

lemma for_await_writes:
  "ev \<in> set (snd (for_await ds l)) \<Longrightarrow> is_write UiStream ev \<or> is_write CodeStream ev"
proof (induction ds arbitrary: l)
  case Nil
  then show ?case by simp
next
  case (Cons d ds)
  then show ?case
    using on_delta_writes [of ev d l]
    by (auto simp: snd_for_await_Cons simp del: for_await.simps)
qed

lemma writer_events_writes:
  "ev \<in> set (writer_events ds) \<Longrightarrow> is_write UiStream ev \<or> is_write CodeStream ev"
  unfolding writer_events_def by (rule for_await_writes)

lemma ui_event_writes: "ev \<in> set (map ui_event ops) \<Longrightarrow> is_write UiStream ev"
proof -
  assume "ev \<in> set (map ui_event ops)"
  then obtain op where "ev = ui_event op" by auto
  then show ?thesis by (cases op) simp_all
qed

lemma write_not_streamText: "is_write x ev \<Longrightarrow> \<not> is_streamText ev"
  by (cases ev) simp_all

lemma attempts_append: "attempts (xs @ ys) = attempts xs + attempts ys"
  by (simp add: attempts_def)

lemma attempts_Cons: "attempts (ev # xs) = (if is_streamText ev then Suc (attempts xs) else attempts xs)"
  by (simp add: attempts_def)

lemma attempts_Nil: "attempts [] = 0"
  by (simp add: attempts_def)

lemma attempts_writer_events: "attempts (writer_events ds) = 0"
  using writer_events_writes write_not_streamText
  by (fastforce simp: attempts_def filter_empty_conv)

lemma attempts_ui_events: "attempts (map ui_event ops) = 0"
  using ui_event_writes write_not_streamText
  by (fastforce simp: attempts_def filter_empty_conv)

lemma attempts_sequential: "attempts (sequential_attempts e k n ms) = n"
  by (induction n arbitrary: k ms)
     (simp_all add: attempts_append attempts_Cons attempts_Nil attempts_writer_events)

lemma trace_prepare:
  "trace (prepare e ms fd skip) =
     [UiCreate, GeneratingCreate True, CollapsedCreate False] @
     (case user_content e fd skip of
        None \<Rightarrow> []
      | Some c \<Rightarrow>
          if c \<noteq> [] then
            [AiStateUpdate (drop (length ms - maxMessages) ms @
               [\<lparr>role = User, content = Text c\<rparr>, \<lparr>role = User, content = Text c\<rparr>])]
          else [])"
  by (simp add: prepare_def Let_def ai_get_def split: option.splits)

lemma messages_prepare:
  "messages (prepare e ms fd skip) =
     drop (length ms - maxMessages) ms @
     (case user_content e fd skip of
        None \<Rightarrow> []
      | Some c \<Rightarrow> if c \<noteq> [] then [\<lparr>role = User, content = Text c\<rparr>] else [])"
  by (simp add: prepare_def Let_def split: option.splits)

lemma attempts_prepare: "attempts (trace (prepare e ms fd skip)) = 0"
  by (simp add: trace_prepare attempts_def split: option.splits)

lemma attempts_decide: "attempts (trace (snd (decide e skip s))) = attempts (trace s)"
  by (simp add: decide_snd attempts_def)

lemma committed_append: "committed (xs @ ys) = committed xs @ committed ys"
  by (simp add: committed_def map_filter_def)

lemma write_not_committed: "is_write x ev \<Longrightarrow> committed_state ev = None"
  by (cases ev) simp_all

lemma committed_none: "(\<And>ev. ev \<in> set xs \<Longrightarrow> committed_state ev = None) \<Longrightarrow> committed xs = []"
  by (induction xs) (simp_all add: committed_def map_filter_def)

lemma committed_writer_events: "committed (writer_events ds) = []"
  using writer_events_writes write_not_committed by (intro committed_none) blast

lemma committed_ui_events: "committed (map ui_event ops) = []"
  using ui_event_writes write_not_committed by (intro committed_none) blast

lemma committed_Cons: "committed (ev # xs) = (case committed_state ev of None \<Rightarrow> committed xs | Some v \<Rightarrow> v # committed xs)"
  by (simp add: committed_def map_filter_def split: option.splits)

lemma committed_Nil: "committed [] = []"
  by (simp add: committed_def map_filter_def)

lemma committed_sequential: "committed (sequential_attempts e k n ms) = []"
  by (induction n arbitrary: k ms)
     (simp_all add: committed_append committed_Cons committed_Nil committed_writer_events)

lemma committed_prepare: "committed (trace (prepare e ms fd skip)) = []"
  by (simp add: trace_prepare committed_def map_filter_def split: option.splits)

lemma committed_decide: "committed (trace (snd (decide e skip s))) = committed (trace s)"
  by (simp add: decide_snd committed_def map_filter_def)


lemma first_nonempty:
  "(\<forall>j<fuel. writer_text (streams e j) = []) \<or>
   (\<exists>N<fuel. (\<forall>j<N. writer_text (streams e j) = []) \<and> writer_text (streams e N) \<noteq> [])"
proof (cases "\<forall>j<fuel. writer_text (streams e j) = []")
  case True
  then show ?thesis by simp
next
  case False
  then obtain j where j: "j < fuel" "writer_text (streams e j) \<noteq> []" by blast
  define N where "N = (LEAST k. writer_text (streams e k) \<noteq> [])"
  have "writer_text (streams e N) \<noteq> []"
    unfolding N_def using j(2) by (rule LeastI)
  moreover have "N \<le> j"
    unfolding N_def using j(2) by (rule Least_le)
  moreover have "\<forall>k<N. writer_text (streams e k) = []"
    unfolding N_def using not_less_Least by blast
  ultimately have "N < fuel \<and> (\<forall>k<N. writer_text (streams e k) = []) \<and>
      writer_text (streams e N) \<noteq> []"
    using j(1) by simp
  then show ?thesis by blast
qed

lemma sequential_events:
  "ev \<in> set (sequential_attempts e k n ms) \<Longrightarrow>
   (\<exists>a. ev = StreamText a \<and> prefix ms a) \<or> is_write UiStream ev \<or> is_write CodeStream ev"
proof (induction n arbitrary: k ms)
  case 0
  then show ?case by simp
next
  case (Suc n)
  from Suc.prems consider "ev = StreamText ms" | "ev \<in> set (writer_events (streams e k))"
    | "ev = UiUpdate NullNode" | "ev \<in> set (sequential_attempts e (Suc k) n (ms @ [attempt_turn e k]))"
    by auto
  then show ?case
  proof cases
    case 1
    then show ?thesis by simp
  next
    case 2
    then show ?thesis using writer_events_writes by blast
  next
    case 3
    then show ?thesis by simp
  next
    case 4
    from Suc.IH [OF 4] show ?thesis
      by (auto dest: append_prefixD)
  qed
qed

lemma write_not_done: "is_write y ev \<Longrightarrow> \<not> is_done x ev"
  by (cases ev; cases x) simp_all

lemma sequential_no_done: "filter (is_done x) (sequential_attempts e k n ms) = []"
  using sequential_events [of _ e k n ms] write_not_done
  by (fastforce simp: filter_empty_conv)

lemma ui_events_no_done: "filter (is_done x) (map ui_event ops) = []"
  using ui_event_writes write_not_done by (fastforce simp: filter_empty_conv)

lemma prepare_no_done: "filter (is_done x) (trace (prepare e ms fd skip)) = []"
  by (cases x) (simp_all add: trace_prepare split: option.splits)

lemma decide_no_done:
  "filter (is_done x) (trace (snd (decide e skip s))) = filter (is_done x) (trace s)"
  by (cases x) (simp_all add: decide_snd)

lemma done_onceI:
  assumes "tr = pre @ d # post" and "is_done x d"
      and "filter (is_done x) pre = []" and "filter (is_done x) post = []"
      and "filter (is_write x) post = []"
  shows "done_once x tr"
proof -
  have nd: "\<And>ev. ev \<in> set pre \<Longrightarrow> \<not> is_done x ev"
    using assms(3) by (simp add: filter_empty_conv)
  have "dropWhile (\<lambda>ev. \<not> is_done x ev) tr = d # post"
    unfolding assms(1) using nd assms(2) by (simp add: dropWhile_append2)
  moreover have "\<not> is_write x d"
    using assms(2) write_not_done by blast
  ultimately show ?thesis
    using assms by (simp add: done_once_def)
qed

lemma submit_generate:
  assumes "skip \<or> decision e \<noteq> Some ''inquire''"
  shows "submitUserInput fuel e ms fd skip =
         generate_path fuel e (snd (decide e skip (prepare e ms fd skip)))"
  by (simp add: submitUserInput_def processEvents_generate [OF assms])

lemma submit_pending:
  assumes gen: "skip \<or> decision e \<noteq> Some ''inquire''"
      and empty: "\<forall>j<fuel. writer_text (streams e j) = []"
  shows "fst (submitUserInput fuel e ms fd skip) = Pending"
    and "trace (snd (submitUserInput fuel e ms fd skip)) =
         trace (snd (decide e skip (prepare e ms fd skip))) @
         [CollapsedDone (Some True), CodeStreamCreate, UiUpdate thinkingSpinner] @
         sequential_attempts e 0 fuel (messages (prepare e ms fd skip))"
proof -
  let ?s1 = "snd (decide e skip (prepare e ms fd skip))"
  have c1: "calls ?s1 = 0"
    by (simp add: calls_decide calls_prepare)
  have e1: "\<forall>j<fuel. writer_text (streams e (calls ?s1 + j)) = []"
    using empty by (simp add: c1)
  note g = generate_path_pending [OF e1, unfolded c1 messages_decide]
  show "fst (submitUserInput fuel e ms fd skip) = Pending"
    using g(1) by (simp add: submit_generate [OF gen])
  show "trace (snd (submitUserInput fuel e ms fd skip)) =
         trace (snd (decide e skip (prepare e ms fd skip))) @
         [CollapsedDone (Some True), CodeStreamCreate, UiUpdate thinkingSpinner] @
         sequential_attempts e 0 fuel (messages (prepare e ms fd skip))"
    using g(2) by (simp add: submit_generate [OF gen])
qed

lemma submit_exit:
  assumes gen: "skip \<or> decision e \<noteq> Some ''inquire''"
      and empty: "\<forall>j<N. writer_text (streams e j) = []"
      and nonempty: "writer_text (streams e N) \<noteq> []"
      and fuel: "N < fuel"
  shows "fst (submitUserInput fuel e ms fd skip) = Completed"
    and "trace (snd (submitUserInput fuel e ms fd skip)) =
         trace (snd (decide e skip (prepare e ms fd skip))) @
         [CollapsedDone (Some True), CodeStreamCreate, UiUpdate thinkingSpinner] @
         sequential_attempts e 0 (Suc N) (messages (prepare e ms fd skip)) @
         (if ErrorDelta \<in> set (streams e N) then []
          else AiSuggestor (messages (prepare e ms fd skip) @ attempt_turns e 0 (Suc N)) #
               map ui_event (suggestor_ui e) @ [UiAppend followupSection]) @
         [GeneratingDone (Some False), UiDone,
          AiStateDone ((case aiState (prepare e ms fd skip) of
                          None \<Rightarrow> messages (prepare e ms fd skip) @ attempt_turns e 0 (Suc N)
                        | Some xs \<Rightarrow> xs) @
            [\<lparr>role = Assistant, content = Text (writer_text (streams e N))\<rparr>])]"
proof -
  let ?s1 = "snd (decide e skip (prepare e ms fd skip))"
  have c1: "calls ?s1 = 0"
    by (simp add: calls_decide calls_prepare)
  obtain m where m: "fuel = Suc N + m"
    using fuel by (metis add_Suc less_iff_Suc_add)
  have e1: "\<forall>j<N. writer_text (streams e (calls ?s1 + j)) = []"
    using empty by (simp add: c1)
  have n1: "writer_text (streams e (calls ?s1 + N)) \<noteq> []"
    using nonempty by (simp add: c1)
  note g = generate_path_exit [OF e1 n1, of m, unfolded c1 messages_decide aiState_decide]
  show "fst (submitUserInput fuel e ms fd skip) = Completed"
    using g(1) by (simp add: submit_generate [OF gen] m)
  show "trace (snd (submitUserInput fuel e ms fd skip)) =
         trace (snd (decide e skip (prepare e ms fd skip))) @
         [CollapsedDone (Some True), CodeStreamCreate, UiUpdate thinkingSpinner] @
         sequential_attempts e 0 (Suc N) (messages (prepare e ms fd skip)) @
         (if ErrorDelta \<in> set (streams e N) then []
          else AiSuggestor (messages (prepare e ms fd skip) @ attempt_turns e 0 (Suc N)) #
               map ui_event (suggestor_ui e) @ [UiAppend followupSection]) @
         [GeneratingDone (Some False), UiDone,
          AiStateDone ((case aiState (prepare e ms fd skip) of
                          None \<Rightarrow> messages (prepare e ms fd skip) @ attempt_turns e 0 (Suc N)
                        | Some xs \<Rightarrow> xs) @
            [\<lparr>role = Assistant, content = Text (writer_text (streams e N))\<rparr>])]"
    using g(2) by (simp add: submit_generate [OF gen] m del: sequential_attempts.simps attempt_turns.simps)
qed

lemma submit_inquire:
  assumes "\<not> skip" and "decision e = Some ''inquire''"
  shows "fst (submitUserInput fuel e ms fd skip) = Completed"
    and "trace (snd (submitUserInput fuel e ms fd skip)) =
         trace (prepare e ms fd skip) @
         RequirementsManager (messages (prepare e ms fd skip)) #
         Inquire (messages (prepare e ms fd skip)) # map ui_event (inquire_ui e) @
         [UiDone, GeneratingDone None, CollapsedDone (Some False),
          AiStateDone (ai_get (prepare e ms fd skip) @
            [\<lparr>role = Assistant, content = Text (''inquiry: '' @ question_text (inquire_result e))\<rparr>])]"
  using assms
  by (simp_all add: submitUserInput_def processEvents_inquire inquire_path_trace)

lemma no_write_flags [simp]: "is_write IsGenerating ev = False" "is_write IsCollapsed ev = False"
  by (cases ev; simp)+

lemma done_once_inquire:
  assumes "\<not> skip" and "decision e = Some ''inquire''"
  shows "done_once UiStream (trace (snd (submitUserInput fuel e ms fd skip)))"
    and "done_once IsGenerating (trace (snd (submitUserInput fuel e ms fd skip)))"
    and "done_once IsCollapsed (trace (snd (submitUserInput fuel e ms fd skip)))"
proof -
  let ?P = "trace (prepare e ms fd skip) @
         RequirementsManager (messages (prepare e ms fd skip)) #
         Inquire (messages (prepare e ms fd skip)) # map ui_event (inquire_ui e)"
  let ?A = "AiStateDone (ai_get (prepare e ms fd skip) @
            [\<lparr>role = Assistant, content = Text (''inquiry: '' @ question_text (inquire_result e))\<rparr>])"
  let ?tr = "trace (snd (submitUserInput fuel e ms fd skip))"
  note tr = submit_inquire(2) [OF assms, of fuel ms fd]
  have "?tr = ?P @ UiDone # [GeneratingDone None, CollapsedDone (Some False), ?A]"
    unfolding tr by simp
  then show "done_once UiStream ?tr"
    by (rule done_onceI) (simp_all add: prepare_no_done ui_events_no_done)
  have "?tr = (?P @ [UiDone]) @ GeneratingDone None # [CollapsedDone (Some False), ?A]"
    unfolding tr by simp
  then show "done_once IsGenerating ?tr"
    by (rule done_onceI) (simp_all add: prepare_no_done ui_events_no_done)
  have "?tr = (?P @ [UiDone, GeneratingDone None]) @ CollapsedDone (Some False) # [?A]"
    unfolding tr by simp
  then show "done_once IsCollapsed ?tr"
    by (rule done_onceI) (simp_all add: prepare_no_done ui_events_no_done)
qed

lemma done_once_exit:
  assumes gen: "skip \<or> decision e \<noteq> Some ''inquire''"
      and empty: "\<forall>j<N. writer_text (streams e j) = []"
      and nonempty: "writer_text (streams e N) \<noteq> []"
      and fuel: "N < fuel"
  shows "done_once UiStream (trace (snd (submitUserInput fuel e ms fd skip)))"
    and "done_once IsGenerating (trace (snd (submitUserInput fuel e ms fd skip)))"
    and "done_once IsCollapsed (trace (snd (submitUserInput fuel e ms fd skip)))"
proof -
  let ?P = "trace (snd (decide e skip (prepare e ms fd skip)))"
  let ?M = "[CodeStreamCreate, UiUpdate thinkingSpinner] @
         sequential_attempts e 0 (Suc N) (messages (prepare e ms fd skip)) @
         (if ErrorDelta \<in> set (streams e N) then []
          else AiSuggestor (messages (prepare e ms fd skip) @ attempt_turns e 0 (Suc N)) #
               map ui_event (suggestor_ui e) @ [UiAppend followupSection])"
  let ?A = "AiStateDone ((case aiState (prepare e ms fd skip) of
                          None \<Rightarrow> messages (prepare e ms fd skip) @ attempt_turns e 0 (Suc N)
                        | Some xs \<Rightarrow> xs) @
            [\<lparr>role = Assistant, content = Text (writer_text (streams e N))\<rparr>])"
  let ?tr = "trace (snd (submitUserInput fuel e ms fd skip))"
  note tr = submit_exit(2) [OF assms, of ms fd]
  have "?tr = ?P @ CollapsedDone (Some True) # (?M @ [GeneratingDone (Some False), UiDone, ?A])"
    unfolding tr by (simp del: sequential_attempts.simps attempt_turns.simps)
  then show "done_once IsCollapsed ?tr"
    by (rule done_onceI)
       (simp_all add: decide_no_done prepare_no_done sequential_no_done ui_events_no_done
          del: sequential_attempts.simps attempt_turns.simps)
  have "?tr = (?P @ CollapsedDone (Some True) # ?M) @ GeneratingDone (Some False) # [UiDone, ?A]"
    unfolding tr by (simp del: sequential_attempts.simps attempt_turns.simps)
  then show "done_once IsGenerating ?tr"
    by (rule done_onceI)
       (simp_all add: decide_no_done prepare_no_done sequential_no_done ui_events_no_done
          del: sequential_attempts.simps attempt_turns.simps)
  have "?tr = (?P @ CollapsedDone (Some True) # ?M @ [GeneratingDone (Some False)]) @ UiDone # [?A]"
    unfolding tr by (simp del: sequential_attempts.simps attempt_turns.simps)
  then show "done_once UiStream ?tr"
    by (rule done_onceI)
       (simp_all add: decide_no_done prepare_no_done sequential_no_done ui_events_no_done
          del: sequential_attempts.simps attempt_turns.simps)
qed

lemma pending_dones:
  assumes gen: "skip \<or> decision e \<noteq> Some ''inquire''"
      and empty: "\<forall>j<fuel. writer_text (streams e j) = []"
  shows "filter (is_done UiStream) (trace (snd (submitUserInput fuel e ms fd skip))) = []"
    and "filter (is_done IsGenerating) (trace (snd (submitUserInput fuel e ms fd skip))) = []"
  unfolding submit_pending(2) [OF assms]
  by (simp_all add: decide_no_done prepare_no_done sequential_no_done)


lemma decide_events:
  "set (trace (snd (decide e skip s))) =
     set (trace s) \<union> (if skip then {} else {RequirementsManager (messages s)})"
  by (simp add: decide_snd)

lemma run_events:
  assumes ev: "ev \<in> set (trace (snd (submitUserInput fuel e ms fd skip)))"
  shows "ev \<in> set (trace (prepare e ms fd skip)) \<or>
         (\<not> skip \<and> ev = RequirementsManager (messages (prepare e ms fd skip))) \<or>
         (\<not> skip \<and> ev = Inquire (messages (prepare e ms fd skip))) \<or>
         (\<exists>a. (ev = StreamText a \<or> ev = AiSuggestor a) \<and> prefix (messages (prepare e ms fd skip)) a) \<or>
         is_write UiStream ev \<or> is_write CodeStream ev \<or>
         ev \<in> {UiDone, GeneratingDone None, GeneratingDone (Some False), CollapsedDone (Some False),
               CollapsedDone (Some True), CodeStreamCreate} \<or>
         (\<exists>xs. ev = AiStateDone xs)"
proof -
  let ?base = "messages (prepare e ms fd skip)"
  define T where "T \<longleftrightarrow>
         ev \<in> set (trace (prepare e ms fd skip)) \<or>
         (\<not> skip \<and> ev = RequirementsManager ?base) \<or>
         (\<not> skip \<and> ev = Inquire ?base) \<or>
         (\<exists>a. (ev = StreamText a \<or> ev = AiSuggestor a) \<and> prefix ?base a) \<or>
         is_write UiStream ev \<or> is_write CodeStream ev \<or>
         ev \<in> {UiDone, GeneratingDone None, GeneratingDone (Some False), CollapsedDone (Some False),
               CollapsedDone (Some True), CodeStreamCreate} \<or>
         (\<exists>xs. ev = AiStateDone xs)"
  have pre: "ev \<in> set (trace (prepare e ms fd skip)) \<Longrightarrow> T"
    by (simp add: T_def)
  have rm: "\<not> skip \<Longrightarrow> ev = RequirementsManager ?base \<Longrightarrow> T"
    by (simp add: T_def)
  have inq: "\<not> skip \<Longrightarrow> ev = Inquire ?base \<Longrightarrow> T"
    by (simp add: T_def)
  have wr: "is_write UiStream ev \<or> is_write CodeStream ev \<Longrightarrow> T"
    unfolding T_def by blast
  have uw: "ev \<in> set (map ui_event ops) \<Longrightarrow> T" for ops
    using ui_event_writes [of ev ops] wr by blast
  have cs: "ev \<in> {UiDone, GeneratingDone None, GeneratingDone (Some False),
      CollapsedDone (Some False), CollapsedDone (Some True), CodeStreamCreate} \<Longrightarrow> T"
    unfolding T_def by blast
  have ai: "ev = AiStateDone xs \<Longrightarrow> T" for xs
    unfolding T_def by blast
  have sg: "ev = AiSuggestor (?base @ ys) \<Longrightarrow> T" for ys
  proof -
    assume "ev = AiSuggestor (?base @ ys)"
    then have "\<exists>a. (ev = StreamText a \<or> ev = AiSuggestor a) \<and> prefix ?base a"
      by (intro exI [of _ "?base @ ys"]) simp
    then show T
      unfolding T_def by blast
  qed
  have seq: "ev \<in> set (sequential_attempts e 0 n ?base) \<Longrightarrow> T" for n
    using sequential_events [of ev e 0 n ?base] unfolding T_def by blast
  have dec: "ev \<in> set (trace (snd (decide e skip (prepare e ms fd skip)))) \<Longrightarrow> T"
    using pre rm by (auto simp: decide_events split: if_splits)
  have T
  proof (cases "\<not> skip \<and> decision e = Some ''inquire''")
    case True
    then have ns: "\<not> skip" and dq: "decision e = Some ''inquire''"
      by simp_all
    from ev have "ev \<in> set (trace (prepare e ms fd skip)) \<or>
        ev = RequirementsManager ?base \<or> ev = Inquire ?base \<or>
        ev \<in> set (map ui_event (inquire_ui e)) \<or>
        ev \<in> {UiDone, GeneratingDone None, CollapsedDone (Some False)} \<or> (\<exists>xs. ev = AiStateDone xs)"
      unfolding submit_inquire(2) [OF ns dq] by auto
    then show ?thesis
      using pre rm [OF ns] inq [OF ns] uw cs ai by blast
  next
    case False
    then have gen: "skip \<or> decision e \<noteq> Some ''inquire''"
      by blast
    consider (pending) "\<forall>j<fuel. writer_text (streams e j) = []"
      | (exit) N where "N < fuel" "\<forall>j<N. writer_text (streams e j) = []"
          "writer_text (streams e N) \<noteq> []"
      using first_nonempty [of fuel e] by blast
    then show ?thesis
    proof cases
      case pending
      from ev have "ev \<in> set (trace (snd (decide e skip (prepare e ms fd skip)))) \<or>
          ev = CollapsedDone (Some True) \<or> ev = CodeStreamCreate \<or>
          ev \<in> set (map ui_event [Update thinkingSpinner]) \<or>
          ev \<in> set (sequential_attempts e 0 fuel ?base)"
        unfolding submit_pending(2) [OF gen pending] by auto
      then show ?thesis
        using seq dec cs uw by blast
    next
      case exit
      from ev have "ev \<in> set (trace (snd (decide e skip (prepare e ms fd skip)))) \<or>
          ev = CollapsedDone (Some True) \<or> ev = CodeStreamCreate \<or>
          ev \<in> set (map ui_event [Update thinkingSpinner]) \<or>
          ev \<in> set (sequential_attempts e 0 (Suc N) ?base) \<or>
          ev = AiSuggestor (?base @ attempt_turns e 0 (Suc N)) \<or>
          ev \<in> set (map ui_event (suggestor_ui e)) \<or>
          ev \<in> set (map ui_event [Append followupSection]) \<or>
          ev = GeneratingDone (Some False) \<or> ev = UiDone \<or> (\<exists>xs. ev = AiStateDone xs)"
        unfolding submit_exit(2) [OF gen exit(2) exit(3) exit(1)]
        by (auto simp del: sequential_attempts.simps attempt_turns.simps split: if_splits)
      then show ?thesis
        using seq dec cs uw ai sg by blast
    qed
  qed
  then show ?thesis
    unfolding T_def .
qed

lemma prepare_events:
  "ev \<in> set (trace (prepare e ms fd skip)) \<Longrightarrow>
   ev \<in> {UiCreate, GeneratingCreate True, CollapsedCreate False} \<or> (\<exists>xs. ev = AiStateUpdate xs)"
  by (auto simp: trace_prepare split: option.splits if_splits)

lemma agent_inputs_mem:
  "a \<in> set (agent_inputs tr) \<longleftrightarrow> (\<exists>ev\<in>set tr. agent_input ev = Some a)"
  by (induction tr) (auto simp: agent_inputs_def map_filter_def)

lemma write_no_agent: "is_write x ev \<Longrightarrow> agent_input ev = None"
  by (cases ev) simp_all

lemma run_agent_input:
  assumes ev: "ev \<in> set (trace (snd (submitUserInput fuel e ms fd skip)))"
      and a: "agent_input ev = Some a"
  shows "prefix (messages (prepare e ms fd skip)) a"
    and "is_requirementsManager ev \<or> is_inquire ev \<Longrightarrow> a = messages (prepare e ms fd skip)"
proof -
  from run_events [OF ev] prepare_events [of ev e ms fd skip] a write_no_agent [of _ ev]
  have c: "ev = RequirementsManager (messages (prepare e ms fd skip)) \<or>
        ev = Inquire (messages (prepare e ms fd skip)) \<or>
        (\<exists>b. (ev = StreamText b \<or> ev = AiSuggestor b) \<and> prefix (messages (prepare e ms fd skip)) b)"
    by (elim disjE) auto
  from c a show "prefix (messages (prepare e ms fd skip)) a"
    by auto
  from c a show "is_requirementsManager ev \<or> is_inquire ev \<Longrightarrow> a = messages (prepare e ms fd skip)"
    by auto
qed


lemma long_history_length: "length long_history = 12"
  by (simp add: long_history_def)


lemma skip_sentinel_nonempty: "skip_sentinel \<noteq> []"
  by (simp add: skip_sentinel_def)

lemma run_no_classifier:
  "filter is_requirementsManager (trace (snd (submitUserInput fuel e ms fd True))) = []"
proof -
  have "\<not> is_requirementsManager ev"
    if "ev \<in> set (trace (snd (submitUserInput fuel e ms fd True)))" for ev
    using run_events [OF that] prepare_events [of ev e ms fd True]
    by (cases ev) auto
  then show ?thesis
    by (simp add: filter_empty_conv)
qed

lemma run_no_inquiry:
  "filter is_inquire (trace (snd (submitUserInput fuel e ms fd True))) = []"
proof -
  have "\<not> is_inquire ev"
    if "ev \<in> set (trace (snd (submitUserInput fuel e ms fd True)))" for ev
    using run_events [OF that] prepare_events [of ev e ms fd True]
    by (cases ev) auto
  then show ?thesis
    by (simp add: filter_empty_conv)
qed

lemma first_attempt_prefix:
  assumes gen: "skip \<or> decision e \<noteq> Some ''inquire''"
  shows "prefix
     (trace (snd (decide e skip (prepare e ms fd skip))) @
      [CollapsedDone (Some True), CodeStreamCreate, UiUpdate thinkingSpinner,
       StreamText (messages (prepare e ms fd skip))])
     (trace (snd (submitUserInput (Suc fuel) e ms fd skip)))"
proof -
  consider (pending) "\<forall>j<Suc fuel. writer_text (streams e j) = []"
    | (exit) N where "N < Suc fuel" "\<forall>j<N. writer_text (streams e j) = []"
        "writer_text (streams e N) \<noteq> []"
    using first_nonempty [of "Suc fuel" e] by blast
  then show ?thesis
  proof cases
    case pending
    show ?thesis
      unfolding submit_pending(2) [OF gen pending] by (simp add: prefix_def)
  next
    case exit
    show ?thesis
      unfolding submit_exit(2) [OF gen exit(2) exit(3) exit(1)] by (simp add: prefix_def)
  qed
qed


lemma code_updates_append: "code_updates (xs @ ys) = code_updates xs @ code_updates ys"
  by (simp add: code_updates_def map_filter_def)

lemma code_updates_Nil: "code_updates [] = []"
  by (simp add: code_updates_def map_filter_def)

lemma code_updates_on_delta:
  "code_updates (snd (on_delta d l)) =
     (case d of TextDelta t \<Rightarrow> if t \<noteq> [] then [fullResponse l @ t] else [] | _ \<Rightarrow> [])"
  by (cases d) (simp_all add: code_updates_def map_filter_def Let_def)

lemma code_updates_no_error:
  "ErrorDelta \<notin> set ds \<Longrightarrow>
   code_updates (snd (for_await ds l)) = running_concat (fullResponse l) (text_fragments ds)"
proof (induction ds arbitrary: l)
  case Nil
  show ?case by (simp add: code_updates_Nil)
next
  case (Cons d ds)
  then have IH: "code_updates (snd (for_await ds (fst (on_delta d l)))) =
      running_concat (fullResponse (fst (on_delta d l))) (text_fragments ds)"
    by simp
  from Cons.prems have "d \<noteq> ErrorDelta"
    by auto
  then show ?case
    unfolding snd_for_await_Cons code_updates_append IH code_updates_on_delta fullResponse_on_delta
    by (cases d) simp_all
qed

lemma code_updates_no_text:
  "text_fragments ds = [] \<Longrightarrow> code_updates (snd (for_await ds l)) = []"
proof (induction ds arbitrary: l)
  case Nil
  show ?case by (simp add: code_updates_Nil)
next
  case (Cons d ds)
  from Cons.prems have tf: "text_fragments ds = []" and d: "text_fragments [d] = []"
    by (cases d; simp split: if_splits)+
  have "code_updates (snd (on_delta d l)) = []"
    using d by (cases d) (simp_all add: code_updates_Nil code_updates_def map_filter_def split: if_splits)
  then show ?case
    unfolding snd_for_await_Cons code_updates_append using Cons.IH [OF tf] by simp
qed

lemma length_running_concat: "length (running_concat acc ts) = length ts"
  by (induction ts arbitrary: acc) simp_all

lemma nth_running_concat:
  "i < length ts \<Longrightarrow> running_concat acc ts ! i = acc @ concat (take (Suc i) ts)"
proof (induction ts arbitrary: acc i)
  case Nil
  then show ?case by simp
next
  case (Cons t ts)
  show ?case
  proof (cases i)
    case 0
    then show ?thesis by simp
  next
    case (Suc j)
    with Cons.prems have "j < length ts" by simp
    from Cons.IH [OF this, of "acc @ t"] Suc show ?thesis by simp
  qed
qed

lemma running_concat_eq:
  "running_concat acc ts = map (\<lambda>i. acc @ concat (take (Suc i) ts)) [0..<length ts]"
  by (rule nth_equalityI) (simp_all add: length_running_concat nth_running_concat)




lemma text_fragments_map:
  "\<forall>t\<in>set frags. t \<noteq> [] \<Longrightarrow> text_fragments (map TextDelta frags) = frags"
  by (induction frags) simp_all

lemma concat_delta_text_map: "concat (map delta_text (map TextDelta frags)) = concat frags"
  by (induction frags) simp_all

lemma for_await_error:
  "for_await (pre @ ErrorDelta # post) l =
     (case for_await pre l of (l1, e1) \<Rightarrow>
        (case for_await post (l1\<lparr>hasError := True, fullResponse := fullResponse l1 @ error_notice\<rparr>)
         of (l2, e2) \<Rightarrow> (l2, e1 @ e2)))"
  by (simp add: for_await_append split: prod.splits)

lemma tool_calls_of_append: "tool_calls_of (xs @ ys) = tool_calls_of xs @ tool_calls_of ys"
proof (induction xs)
  case Nil
  show ?case by simp
next
  case (Cons d xs)
  then show ?case by (cases d) simp_all
qed

lemma code_updates_Cons:
  "code_updates (ev # xs) = (case code_update ev of None \<Rightarrow> code_updates xs | Some v \<Rightarrow> v # code_updates xs)"
  by (simp add: code_updates_def map_filter_def split: option.splits)

lemma code_updates_none:
  "(\<And>ev. ev \<in> set xs \<Longrightarrow> code_update ev = None) \<Longrightarrow> code_updates xs = []"
  by (induction xs) (simp_all add: code_updates_def map_filter_def)

lemma code_updates_ui_events: "code_updates (map ui_event ops) = []"
proof (rule code_updates_none)
  fix ev assume "ev \<in> set (map ui_event ops)"
  then obtain op where "ev = ui_event op" by auto
  then show "code_update ev = None" by (cases op) simp_all
qed

lemma code_updates_prepare: "code_updates (trace (prepare e ms fd skip)) = []"
  by (simp add: trace_prepare code_updates_def map_filter_def split: option.splits)

lemma code_updates_decide:
  "code_updates (trace (snd (decide e skip s))) = code_updates (trace s)"
  by (simp add: decide_snd code_updates_def map_filter_def)

lemma writer_text_fragments: "writer_text ds = [] \<Longrightarrow> text_fragments ds = []"
proof (induction ds)
  case Nil
  show ?case by simp
next
  case (Cons d ds)
  then show ?case
    by (cases d) (simp_all add: writer_text_eq)
qed

lemma code_updates_silent:
  "(\<forall>j<n. writer_text (streams e (k + j)) = []) \<Longrightarrow>
   code_updates (sequential_attempts e k n ms) = []"
proof (induction n arbitrary: k ms)
  case 0
  show ?case by (simp add: code_updates_Nil)
next
  case (Suc n)
  have first: "writer_text (streams e k) = []"
    using Suc.prems by force
  have rest: "\<forall>j<n. writer_text (streams e (Suc k + j)) = []"
    using Suc.prems by force
  have "code_updates (writer_events (streams e k)) = []"
    unfolding writer_events_def
    by (rule code_updates_no_text) (rule writer_text_fragments [OF first])
  then show ?case
    using Suc.IH [OF rest]
    by (simp add: code_updates_append code_updates_Cons)
qed

lemma attempts_exit:
  assumes gen: "skip \<or> decision e \<noteq> Some ''inquire''"
      and empty: "\<forall>j<N. writer_text (streams e j) = []"
      and nonempty: "writer_text (streams e N) \<noteq> []"
      and fuel: "N < fuel"
  shows "attempts (trace (snd (submitUserInput fuel e ms fd skip))) = Suc N"
  unfolding submit_exit(2) [OF assms]
  by (simp add: attempts_append attempts_Cons attempts_Nil attempts_sequential attempts_decide
      attempts_prepare attempts_ui_events del: sequential_attempts.simps attempt_turns.simps)

lemma committed_exit:
  assumes gen: "skip \<or> decision e \<noteq> Some ''inquire''"
      and empty: "\<forall>j<N. writer_text (streams e j) = []"
      and nonempty: "writer_text (streams e N) \<noteq> []"
      and fuel: "N < fuel"
  shows "map last (committed (trace (snd (submitUserInput fuel e ms fd skip)))) =
         [\<lparr>role = Assistant, content = Text (writer_text (streams e N))\<rparr>]"
  unfolding submit_exit(2) [OF assms]
  by (simp add: committed_append committed_Cons committed_Nil committed_sequential
      committed_ui_events committed_decide committed_prepare
      del: sequential_attempts.simps attempt_turns.simps)

lemma code_updates_exit:
  assumes gen: "skip \<or> decision e \<noteq> Some ''inquire''"
      and empty: "\<forall>j<N. writer_text (streams e j) = []"
      and nonempty: "writer_text (streams e N) \<noteq> []"
      and fuel: "N < fuel"
  shows "code_updates (trace (snd (submitUserInput fuel e ms fd skip))) =
         code_updates (writer_events (streams e N))"
proof -
  have e0: "\<forall>j<N. writer_text (streams e (0 + j)) = []"
    using empty by simp
  show ?thesis
    unfolding submit_exit(2) [OF assms] sequential_attempts_snoc
    by (simp add: code_updates_append code_updates_Cons code_updates_Nil code_updates_ui_events
        code_updates_decide code_updates_prepare code_updates_silent [OF e0]
        del: sequential_attempts.simps attempt_turns.simps)
qed

lemma for_await_appends:
  "UiAppend n \<in> set (snd (for_await ds l)) \<Longrightarrow> n = generatingSpinner"
proof (induction ds arbitrary: l)
  case Nil
  then show ?case by simp
next
  case (Cons d ds)
  from Cons.prems have "UiAppend n \<in> set (snd (on_delta d l)) \<or>
      UiAppend n \<in> set (snd (for_await ds (fst (on_delta d l))))"
    by (simp add: snd_for_await_Cons del: for_await.simps)
  then show ?case
  proof
    assume "UiAppend n \<in> set (snd (on_delta d l))"
    then show ?thesis
      by (cases d) (auto simp: Let_def split: if_splits)
  next
    assume "UiAppend n \<in> set (snd (for_await ds (fst (on_delta d l))))"
    then show ?thesis
      by (rule Cons.IH)
  qed
qed

lemma sequential_appends:
  "UiAppend n \<in> set (sequential_attempts e k m ms) \<Longrightarrow> n = generatingSpinner"
proof (induction m arbitrary: k ms)
  case 0
  then show ?case by simp
next
  case (Suc m)
  from Suc.prems have "UiAppend n \<in> set (writer_events (streams e k)) \<or>
      UiAppend n \<in> set (sequential_attempts e (Suc k) m (ms @ [attempt_turn e k]))"
    by simp
  then show ?case
    using for_await_appends Suc.IH unfolding writer_events_def by blast
qed

lemma sequential_no_suggestor: "filter is_aiSuggestor (sequential_attempts e k n ms) = []"
proof -
  have "\<not> is_aiSuggestor ev" if "ev \<in> set (sequential_attempts e k n ms)" for ev
    using sequential_events [OF that] by (cases ev) auto
  then show ?thesis
    by (simp add: filter_empty_conv)
qed

lemma prepare_no_suggestor: "filter is_aiSuggestor (trace (prepare e ms fd skip)) = []"
  by (simp add: trace_prepare split: option.splits)

lemma error_skips_suggestor:
  assumes gen: "skip \<or> decision e \<noteq> Some ''inquire''"
      and empty: "\<forall>j<N. writer_text (streams e j) = []"
      and err: "ErrorDelta \<in> set (streams e N)"
      and fuel: "N < fuel"
  shows "filter is_aiSuggestor (trace (snd (submitUserInput fuel e ms fd skip))) = []"
    and "UiAppend followupSection \<notin> set (trace (snd (submitUserInput fuel e ms fd skip)))"
proof -
  note tr = submit_exit(2) [OF gen empty error_text_nonempty [OF err] fuel, of ms fd]
  show "filter is_aiSuggestor (trace (snd (submitUserInput fuel e ms fd skip))) = []"
    unfolding tr using err
    by (simp add: sequential_no_suggestor prepare_no_suggestor decide_snd
        del: sequential_attempts.simps attempt_turns.simps)
  have ne: "followupSection \<noteq> generatingSpinner"
    by (simp add: followupSection_def generatingSpinner_def)
  have "UiAppend followupSection \<notin> set (sequential_attempts e 0 (Suc N) (messages (prepare e ms fd skip)))"
    using sequential_appends ne by blast
  moreover have "UiAppend followupSection \<notin> set (trace (snd (decide e skip (prepare e ms fd skip))))"
    using prepare_events [of "UiAppend followupSection" e ms fd skip]
    by (auto simp: decide_events split: if_splits)
  ultimately show "UiAppend followupSection \<notin> set (trace (snd (submitUserInput fuel e ms fd skip)))"
    unfolding tr using err
    by (simp del: sequential_attempts.simps attempt_turns.simps)
qed

lemma clean_text: "ErrorDelta \<notin> set ds \<Longrightarrow> writer_text ds = concat (text_fragments ds)"
proof (induction ds)
  case Nil
  show ?case by (simp add: writer_text_eq)
next
  case (Cons d ds)
  then show ?case
    by (cases d) (simp_all add: writer_text_eq)
qed


lemma isGenerating_value_append:
  "isGenerating_value v (xs @ ys) = isGenerating_value (isGenerating_value v xs) ys"
  by (induction v xs rule: isGenerating_value.induct) simp_all

lemma isCollapsed_value_append:
  "isCollapsed_value v (xs @ ys) = isCollapsed_value (isCollapsed_value v xs) ys"
  by (induction v xs rule: isCollapsed_value.induct) simp_all

lemma isGenerating_value_ui: "isGenerating_value v (map ui_event ops) = v"
proof (induction ops)
  case Nil
  show ?case by simp
next
  case (Cons op ops)
  then show ?case by (cases op) simp_all
qed

lemma isCollapsed_value_ui: "isCollapsed_value v (map ui_event ops) = v"
proof (induction ops)
  case Nil
  show ?case by simp
next
  case (Cons op ops)
  then show ?case by (cases op) simp_all
qed

lemma isGenerating_value_prepare:
  "isGenerating_value v (trace (prepare e ms fd skip)) = Some True"
  by (simp add: trace_prepare split: option.splits)

lemma isCollapsed_value_prepare:
  "isCollapsed_value v (trace (prepare e ms fd skip)) = Some False"
  by (simp add: trace_prepare split: option.splits)

lemma ui_events_off_code_stream: "filter (on_stream CodeStream) (map ui_event ops) = []"
proof (induction ops)
  case Nil
  show ?case by simp
next
  case (Cons op ops)
  then show ?case by (cases op) simp_all
qed

lemma prepare_off_code_stream: "filter (on_stream CodeStream) (trace (prepare e ms fd skip)) = []"
  by (simp add: trace_prepare split: option.splits)

lemma committed_inquire:
  assumes "\<not> skip" and "decision e = Some ''inquire''"
  shows "committed (trace (snd (submitUserInput fuel e ms fd skip))) =
         [ai_get (prepare e ms fd skip) @
          [\<lparr>role = Assistant, content = Text (''inquiry: '' @ question_text (inquire_result e))\<rparr>]]"
  unfolding submit_inquire(2) [OF assms]
  by (simp add: committed_append committed_Cons committed_Nil committed_ui_events committed_prepare)

text \<open>
  Further facts on runs: a stream that is never closed, the closing of \<^verbatim>\<open>isCollapsed\<close>
  in a run that is still in the retry loop, the lists handed to each writer call and to
  the suggestion agent, the fragments of a stream, and the conversation a run leaves
  after its last attempt.
\<close>

lemma done_once_at_most: "done_once x tr \<Longrightarrow> done_at_most_once x tr"
  by (simp add: done_once_def done_at_most_once_def)

lemma never_done_at_most:
  assumes "filter (is_done x) tr = []"
  shows "done_at_most_once x tr"
proof -
  have "\<forall>ev\<in>set tr. \<not> is_done x ev"
    using assms by (simp add: filter_empty_conv)
  then have dw: "dropWhile (\<lambda>ev. \<not> is_done x ev) tr = []"
    by simp
  show ?thesis
    unfolding done_at_most_once_def dw assms by simp
qed

lemma done_once_collapsed_pending:
  assumes gen: "skip \<or> decision e \<noteq> Some ''inquire''"
      and empty: "\<forall>j<fuel. writer_text (streams e j) = []"
  shows "done_once IsCollapsed (trace (snd (submitUserInput fuel e ms fd skip)))"
proof -
  have "trace (snd (submitUserInput fuel e ms fd skip)) =
      trace (snd (decide e skip (prepare e ms fd skip))) @
      CollapsedDone (Some True) #
      ([CodeStreamCreate, UiUpdate thinkingSpinner] @
       sequential_attempts e 0 fuel (messages (prepare e ms fd skip)))"
    unfolding submit_pending(2) [OF gen empty] by simp
  then show ?thesis
    by (rule done_onceI)
       (simp_all add: decide_no_done prepare_no_done sequential_no_done)
qed

lemma attempts_pending:
  assumes gen: "skip \<or> decision e \<noteq> Some ''inquire''"
      and empty: "\<forall>j<fuel. writer_text (streams e j) = []"
  shows "attempts (trace (snd (submitUserInput fuel e ms fd skip))) = fuel"
  unfolding submit_pending(2) [OF assms]
  by (simp add: attempts_append attempts_Cons attempts_Nil attempts_sequential attempts_decide
      attempts_prepare)

lemma attempts_inquire:
  assumes "\<not> skip" and "decision e = Some ''inquire''"
  shows "attempts (trace (snd (submitUserInput fuel e ms fd skip))) = 0"
  unfolding submit_inquire(2) [OF assms]
  by (simp add: attempts_append attempts_Cons attempts_Nil attempts_prepare attempts_ui_events)

lemma no_attempts: "attempts tr = 0 \<Longrightarrow> filter is_streamText tr = []"
  by (simp add: attempts_def)

lemma streamText_sequential:
  "filter is_streamText (sequential_attempts e k n ms) =
     map (\<lambda>j. StreamText (ms @ attempt_turns e k j)) [0..<n]"
proof (induction n)
  case 0
  show ?case by simp
next
  case (Suc n)
  have "filter is_streamText (sequential_attempts e k (Suc n) ms) =
        filter is_streamText (sequential_attempts e k n ms) @ [StreamText (ms @ attempt_turns e k n)]"
    unfolding sequential_attempts_snoc
    by (simp add: no_attempts [OF attempts_writer_events])
  then show ?case
    using Suc.IH by simp
qed

lemma ui_events_no_suggestor: "filter is_aiSuggestor (map ui_event ops) = []"
proof (induction ops)
  case Nil
  show ?case by simp
next
  case (Cons op ops)
  then show ?case by (cases op) simp_all
qed

lemma decide_no_suggestor:
  "filter is_aiSuggestor (trace (snd (decide e skip s))) = filter is_aiSuggestor (trace s)"
  by (simp add: decide_snd)

lemma run_streamText:
  "map agent_input (filter is_streamText (trace (snd (submitUserInput fuel e ms fd skip)))) =
     map (\<lambda>j. Some (messages (prepare e ms fd skip) @ attempt_turns e 0 j))
       [0..<attempts (trace (snd (submitUserInput fuel e ms fd skip)))]"
proof (cases "\<not> skip \<and> decision e = Some ''inquire''")
  case True
  then have ns: "\<not> skip" and inq: "decision e = Some ''inquire''"
    by simp_all
  show ?thesis
    using attempts_inquire [OF ns inq, of fuel ms fd]
    by (simp add: no_attempts)
next
  case False
  then have gen: "skip \<or> decision e \<noteq> Some ''inquire''"
    by blast
  let ?base = "messages (prepare e ms fd skip)"
  have pre: "filter is_streamText (trace (snd (decide e skip (prepare e ms fd skip)))) = []"
    by (rule no_attempts) (simp add: attempts_decide attempts_prepare)
  consider (pending) "\<forall>j<fuel. writer_text (streams e j) = []"
    | (exit) N where "N < fuel" "\<forall>j<N. writer_text (streams e j) = []"
        "writer_text (streams e N) \<noteq> []"
    using first_nonempty [of fuel e] by blast
  then show ?thesis
  proof cases
    case pending
    have "filter is_streamText (trace (snd (submitUserInput fuel e ms fd skip))) =
        map (\<lambda>j. StreamText (?base @ attempt_turns e 0 j)) [0..<fuel]"
      unfolding submit_pending(2) [OF gen pending]
      by (simp add: pre streamText_sequential)
    then show ?thesis
      unfolding attempts_pending [OF gen pending] by (simp add: comp_def)
  next
    case exit
    have "filter is_streamText (trace (snd (submitUserInput fuel e ms fd skip))) =
        map (\<lambda>j. StreamText (?base @ attempt_turns e 0 j)) [0..<Suc N]"
      unfolding submit_exit(2) [OF gen exit(2) exit(3) exit(1)]
      by (simp add: pre streamText_sequential no_attempts [OF attempts_ui_events]
          del: sequential_attempts.simps attempt_turns.simps upt_Suc)
    then show ?thesis
      unfolding attempts_exit [OF gen exit(2) exit(3) exit(1)]
      by (simp add: comp_def del: attempt_turns.simps upt_Suc)
  qed
qed

lemma run_suggestor:
  "list_all
     (\<lambda>ev. agent_input ev =
        Some (messages (prepare e ms fd skip) @
              attempt_turns e 0 (attempts (trace (snd (submitUserInput fuel e ms fd skip))))))
     (filter is_aiSuggestor (trace (snd (submitUserInput fuel e ms fd skip))))"
proof (cases "\<not> skip \<and> decision e = Some ''inquire''")
  case True
  then have ns: "\<not> skip" and inq: "decision e = Some ''inquire''"
    by simp_all
  have "filter is_aiSuggestor (trace (snd (submitUserInput fuel e ms fd skip))) = []"
    unfolding submit_inquire(2) [OF ns inq]
    by (simp add: prepare_no_suggestor ui_events_no_suggestor)
  then show ?thesis by simp
next
  case False
  then have gen: "skip \<or> decision e \<noteq> Some ''inquire''"
    by blast
  have pre: "filter is_aiSuggestor (trace (snd (decide e skip (prepare e ms fd skip)))) = []"
    by (simp add: decide_no_suggestor prepare_no_suggestor)
  consider (pending) "\<forall>j<fuel. writer_text (streams e j) = []"
    | (exit) N where "N < fuel" "\<forall>j<N. writer_text (streams e j) = []"
        "writer_text (streams e N) \<noteq> []"
    using first_nonempty [of fuel e] by blast
  then show ?thesis
  proof cases
    case pending
    have "filter is_aiSuggestor (trace (snd (submitUserInput fuel e ms fd skip))) = []"
      unfolding submit_pending(2) [OF gen pending]
      by (simp add: pre sequential_no_suggestor)
    then show ?thesis by simp
  next
    case exit
    have "filter is_aiSuggestor (trace (snd (submitUserInput fuel e ms fd skip))) =
        (if ErrorDelta \<in> set (streams e N) then []
         else [AiSuggestor (messages (prepare e ms fd skip) @ attempt_turns e 0 (Suc N))])"
      unfolding submit_exit(2) [OF gen exit(2) exit(3) exit(1)]
      by (simp add: pre sequential_no_suggestor ui_events_no_suggestor
          del: sequential_attempts.simps attempt_turns.simps)
    then show ?thesis
      unfolding attempts_exit [OF gen exit(2) exit(3) exit(1)]
      by (simp del: attempt_turns.simps)
  qed
qed

lemma text_fragments_nonempty: "t \<in> set (text_fragments ds) \<Longrightarrow> t \<noteq> []"
proof (induction ds)
  case Nil
  then show ?case by simp
next
  case (Cons d ds)
  then show ?case
    by (cases d) (auto split: if_splits)
qed

lemma concat_fragments_nonempty:
  assumes "text_fragments ds \<noteq> []"
  shows "concat (text_fragments ds) \<noteq> []"
proof -
  obtain t ts where c: "text_fragments ds = t # ts"
    using assms by (cases "text_fragments ds") auto
  then have "t \<in> set (text_fragments ds)"
    by simp
  then have "t \<noteq> []"
    by (rule text_fragments_nonempty)
  then show ?thesis
    by (simp add: c)
qed



section \<open>The retry loop\<close>

text \<open>
  Claim C1. In a generate-branch exchange in which the first \<open>N\<close> writer attempts return
  an empty text and attempt \<open>N + 1\<close> returns a non-empty one, the retry loop has not
  exited after any number of attempts up to \<open>N\<close> (each of them was made), and once
  attempt \<open>N + 1\<close> is allowed it exits: exactly \<open>N + 1\<close> attempts are made, their
  events lie in the trace one attempt after the other, and the code that is committed is
  the non-empty text of attempt \<open>N + 1\<close>.
\<close>

theorem retry_until_nonempty:
  assumes gen: "skip \<or> decision e \<noteq> Some ''inquire''"
      and empty: "\<forall>k<N. writer_text (streams e k) = []"
      and nonempty: "writer_text (streams e N) \<noteq> []"
  shows "(\<forall>fuel\<le>N. fst (submitUserInput fuel e ms fd skip) = Pending \<and>
            attempts (trace (snd (submitUserInput fuel e ms fd skip))) = fuel) \<and>
         (\<forall>fuel>N. fst (submitUserInput fuel e ms fd skip) = Completed \<and>
            attempts (trace (snd (submitUserInput fuel e ms fd skip))) = Suc N \<and>
            (\<exists>pre post. trace (snd (submitUserInput fuel e ms fd skip)) =
               pre @ sequential_attempts e 0 (Suc N) (messages (prepare e ms fd skip)) @ post \<and>
               attempts pre = 0 \<and> attempts post = 0) \<and>
            map last (committed (trace (snd (submitUserInput fuel e ms fd skip)))) =
              [\<lparr>role = Assistant, content = Text (writer_text (streams e N))\<rparr>])"
proof (intro conjI allI impI)
  let ?s1 = "snd (decide e skip (prepare e ms fd skip))"
  have c1: "calls ?s1 = 0"
    by (simp add: calls_decide calls_prepare)
  have run: "submitUserInput fuel e ms fd skip = generate_path fuel e ?s1" for fuel
    by (simp add: submitUserInput_def processEvents_generate [OF gen])
  {
    fix fuel assume le: "fuel \<le> N"
    have e1: "\<forall>j<fuel. writer_text (streams e (calls ?s1 + j)) = []"
      using empty le by (simp add: c1)
    show "fst (submitUserInput fuel e ms fd skip) = Pending"
      by (simp add: run generate_path_pending(1) [OF e1])
    show "attempts (trace (snd (submitUserInput fuel e ms fd skip))) = fuel"
      by (simp add: run generate_path_pending(2) [OF e1] attempts_append attempts_Cons
          attempts_Nil attempts_sequential attempts_decide attempts_prepare)
  }
  {
    fix fuel assume gt: "N < fuel"
    then obtain m where fuel: "fuel = Suc N + m"
      by (metis add_Suc less_iff_Suc_add)
    have e1: "\<forall>j<N. writer_text (streams e (calls ?s1 + j)) = []"
      using empty by (simp add: c1)
    have n1: "writer_text (streams e (calls ?s1 + N)) \<noteq> []"
      using nonempty by (simp add: c1)
    note g = generate_path_exit [OF e1 n1, of m, unfolded c1 messages_decide aiState_decide]
    let ?post = "(if ErrorDelta \<in> set (streams e N) then []
          else AiSuggestor (messages (prepare e ms fd skip) @ attempt_turns e 0 (Suc N)) #
               map ui_event (suggestor_ui e) @ [UiAppend followupSection]) @
         [GeneratingDone (Some False), UiDone,
          AiStateDone ((case aiState (prepare e ms fd skip) of None \<Rightarrow> messages (prepare e ms fd skip) @ attempt_turns e 0 (Suc N) | Some xs \<Rightarrow> xs) @
            [\<lparr>role = Assistant, content = Text (writer_text (streams e N))\<rparr>])]"
    let ?pre = "trace ?s1 @ [CollapsedDone (Some True), CodeStreamCreate, UiUpdate thinkingSpinner]"
    have tr: "trace (snd (submitUserInput fuel e ms fd skip)) =
        ?pre @ sequential_attempts e 0 (Suc N) (messages (prepare e ms fd skip)) @ ?post"
      using g(2) by (simp add: run fuel del: sequential_attempts.simps attempt_turns.simps)
    have pre0: "attempts ?pre = 0"
      by (simp add: attempts_append attempts_Cons attempts_Nil attempts_decide attempts_prepare)
    have post0: "attempts ?post = 0"
      by (simp add: attempts_append attempts_Cons attempts_Nil attempts_ui_events)
    show "fst (submitUserInput fuel e ms fd skip) = Completed"
      using g(1) by (simp add: run fuel)
    show "attempts (trace (snd (submitUserInput fuel e ms fd skip))) = Suc N"
    proof -
      have "attempts (trace (snd (submitUserInput fuel e ms fd skip))) =
            attempts ?pre + (attempts (sequential_attempts e 0 (Suc N) (messages (prepare e ms fd skip))) +
            attempts ?post)"
        unfolding tr by (simp only: attempts_append)
      then show ?thesis
        by (simp add: pre0 post0 attempts_sequential del: sequential_attempts.simps)
    qed
    show "\<exists>pre post. trace (snd (submitUserInput fuel e ms fd skip)) =
               pre @ sequential_attempts e 0 (Suc N) (messages (prepare e ms fd skip)) @ post \<and>
               attempts pre = 0 \<and> attempts post = 0"
      using tr pre0 post0 by blast
    show "map last (committed (trace (snd (submitUserInput fuel e ms fd skip)))) =
              [\<lparr>role = Assistant, content = Text (writer_text (streams e N))\<rparr>]"
      unfolding tr
      by (simp add: committed_append committed_Cons committed_Nil committed_sequential
          committed_ui_events committed_decide committed_prepare
          del: sequential_attempts.simps attempt_turns.simps)
  }
qed

theorem retry_until_nonempty_witness:
  "writer_text (streams (example_env None None retry_streams) 0) = [] \<and>
   writer_text (streams (example_env None None retry_streams) 1) = ''pragma solidity ^0.8.0;'' \<and>
   fst (submitUserInput 1 (example_env None None retry_streams) [] None True) = Pending \<and>
   fst (submitUserInput 2 (example_env None None retry_streams) [] None True) = Completed \<and>
   attempts (trace (snd (submitUserInput 2 (example_env None None retry_streams) [] None True))) = 2 \<and>
   map last (committed (trace (snd (submitUserInput 2 (example_env None None retry_streams) [] None True)))) =
     [\<lparr>role = Assistant, content = Text ''pragma solidity ^0.8.0;''\<rparr>]"
proof -
  let ?E = "example_env None None retry_streams"
  have v0: "writer_text (streams ?E 0) = []"
    by (simp add: example_env_def retry_streams_def writer_text_def init_locals_def)
  have v1: "writer_text (streams ?E 1) = ''pragma solidity ^0.8.0;''"
    by (simp add: example_env_def retry_streams_def writer_text_def init_locals_def)
  have h0: "\<forall>k<1. writer_text (streams ?E k) = []"
    using v0 by simp
  have h1: "writer_text (streams ?E 1) \<noteq> []"
    using v1 by simp
  have g: "True \<or> decision ?E \<noteq> Some ''inquire''"
    by simp
  note t = retry_until_nonempty [OF g h0 h1, of "[]" None]
  have a: "fst (submitUserInput 1 ?E [] None True) = Pending"
    using conjunct1 [OF t, rule_format, of 1] by simp
  have b: "fst (submitUserInput 2 ?E [] None True) = Completed \<and>
      attempts (trace (snd (submitUserInput 2 ?E [] None True))) = 2 \<and>
      map last (committed (trace (snd (submitUserInput 2 ?E [] None True)))) =
        [\<lparr>role = Assistant, content = Text ''pragma solidity ^0.8.0;''\<rparr>]"
    using conjunct2 [OF t, rule_format, of 2] v1 by simp
  show ?thesis
    using v0 v1 a b by simp
qed

section \<open>Closing the streams\<close>

text \<open>
  Claim C2, as amended. In every exchange, whether it ends or not, done is called exactly
  once on \<^verbatim>\<open>isCollapsed\<close>, at most once on the UI stream and at most once on
  \<^verbatim>\<open>isGenerating\<close>, and nothing is written to any of the three from its done call on. In
  every exchange in which \<^verbatim>\<open>processEvents\<close> runs to its end (the inquire branch, or a
  generate branch in which some writer attempt that is allowed returns a non-empty text),
  done is called exactly once on the UI stream and on \<^verbatim>\<open>isGenerating\<close> as well.
\<close>

theorem streams_done_once:
  "done_once IsCollapsed (trace (snd (submitUserInput fuel e ms fd skip))) \<and>
   done_at_most_once UiStream (trace (snd (submitUserInput fuel e ms fd skip))) \<and>
   done_at_most_once IsGenerating (trace (snd (submitUserInput fuel e ms fd skip))) \<and>
   ((\<not> skip \<and> decision e = Some ''inquire'') \<or>
    (writer_text (streams e n) \<noteq> [] \<and> n < fuel) \<longrightarrow>
      fst (submitUserInput fuel e ms fd skip) = Completed \<and>
      done_once UiStream (trace (snd (submitUserInput fuel e ms fd skip))) \<and>
      done_once IsGenerating (trace (snd (submitUserInput fuel e ms fd skip))))"
proof (cases "\<not> skip \<and> decision e = Some ''inquire''")
  case True
  then show ?thesis
    using submit_inquire(1) [of skip e fuel ms fd] done_once_inquire [of skip e fuel ms fd]
    by (simp add: done_once_at_most)
next
  case False
  then have gen: "skip \<or> decision e \<noteq> Some ''inquire''"
    by blast
  consider (pending) "\<forall>j<fuel. writer_text (streams e j) = []"
    | (exit) N where "N < fuel" "\<forall>j<N. writer_text (streams e j) = []"
        "writer_text (streams e N) \<noteq> []"
    using first_nonempty [of fuel e] by blast
  then show ?thesis
  proof cases
    case pending
    have "\<not> (writer_text (streams e n) \<noteq> [] \<and> n < fuel)"
      using pending by blast
    then show ?thesis
      using False done_once_collapsed_pending [OF gen pending, of ms fd]
        never_done_at_most [OF pending_dones(1) [OF gen pending, of ms fd]]
        never_done_at_most [OF pending_dones(2) [OF gen pending, of ms fd]]
      by blast
  next
    case exit
    show ?thesis
      using submit_exit(1) [OF gen exit(2) exit(3) exit(1), of ms fd]
        done_once_exit [OF gen exit(2) exit(3) exit(1), of ms fd]
      by (simp add: done_once_at_most)
  qed
qed

theorem streams_done_once_witness:
  "writer_text (streams (example_env None None retry_streams) 1) \<noteq> [] \<and>
   done_once IsCollapsed (trace (snd (submitUserInput 1 (example_env None None retry_streams) [] None False))) \<and>
   done_at_most_once UiStream (trace (snd (submitUserInput 1 (example_env None None retry_streams) [] None False))) \<and>
   done_at_most_once IsGenerating (trace (snd (submitUserInput 1 (example_env None None retry_streams) [] None False))) \<and>
   fst (submitUserInput 2 (example_env None None retry_streams) [] None False) = Completed \<and>
   done_once UiStream (trace (snd (submitUserInput 2 (example_env None None retry_streams) [] None False))) \<and>
   done_once IsGenerating (trace (snd (submitUserInput 2 (example_env None None retry_streams) [] None False))) \<and>
   done_once IsCollapsed (trace (snd (submitUserInput 2 (example_env None None retry_streams) [] None False)))"
proof -
  let ?E = "example_env None None retry_streams"
  have v1: "writer_text (streams ?E 1) \<noteq> []"
    by (simp add: example_env_def retry_streams_def writer_text_def init_locals_def)
  then have h: "(\<not> False \<and> decision ?E = Some ''inquire'') \<or>
      (writer_text (streams ?E 1) \<noteq> [] \<and> (1::nat) < 2)"
    by simp
  show ?thesis
    using streams_done_once [of 1 ?E "[]" None False 1]
      streams_done_once [of 2 ?E "[]" None False 1] h v1
    by blast
qed

text \<open>
  The claim as stated fails: when the model never returns any text the loop never exits,
  whatever the number of attempts, and done is called neither on the UI stream nor on
  \<^verbatim>\<open>isGenerating\<close>.
\<close>

theorem silent_model_never_done:
  "\<forall>fuel. fst (submitUserInput fuel (example_env None None silent_streams) [] None True) = Pending \<and>
     \<not> done_once UiStream
         (trace (snd (submitUserInput fuel (example_env None None silent_streams) [] None True))) \<and>
     \<not> done_once IsGenerating
         (trace (snd (submitUserInput fuel (example_env None None silent_streams) [] None True)))"
proof
  fix fuel
  let ?E = "example_env None None silent_streams"
  have gen: "True \<or> decision ?E \<noteq> Some ''inquire''"
    by simp
  have empty: "\<forall>j<fuel. writer_text (streams ?E j) = []"
    by (simp add: example_env_def silent_streams_def writer_text_def init_locals_def)
  show "fst (submitUserInput fuel ?E [] None True) = Pending \<and>
     \<not> done_once UiStream (trace (snd (submitUserInput fuel ?E [] None True))) \<and>
     \<not> done_once IsGenerating (trace (snd (submitUserInput fuel ?E [] None True)))"
    using submit_pending(1) [OF gen empty] pending_dones [OF gen empty]
    by (simp add: done_once_def)
qed

section \<open>The window handed to the agents\<close>

text \<open>
  Claim C3, as amended. At the start of an exchange the retained turn list is cut to its
  last \<open>maxMessages\<close> turns (the most recent ones, in order); the new user turn, when there
  is one, is pushed after the cut, so the list the agents work on starts with at most
  \<open>maxMessages + 1\<close> turns. The decision and inquiry agents receive exactly that list;
  writer call number \<open>j\<close> (counted from 0) receives that list followed by the assistant
  turns of the \<open>j\<close> attempts before it, and the suggestion agent receives that list
  followed by the assistant turns of all the attempts of the exchange.
\<close>

theorem window_truncation:
  "length (drop (length ms - maxMessages) ms) = min maxMessages (length ms) \<and>
   suffix (drop (length ms - maxMessages) ms) ms \<and>
   messages (prepare e ms fd skip) =
     drop (length ms - maxMessages) ms @
     (case user_content e fd skip of
        None \<Rightarrow> []
      | Some c \<Rightarrow> if c \<noteq> [] then [\<lparr>role = User, content = Text c\<rparr>] else []) \<and>
   length (messages (prepare e ms fd skip)) \<le> Suc maxMessages \<and>
   list_all (prefix (messages (prepare e ms fd skip)))
     (agent_inputs (trace (snd (submitUserInput fuel e ms fd skip)))) \<and>
   list_all (\<lambda>ev. agent_input ev = Some (messages (prepare e ms fd skip)))
     (filter (\<lambda>ev. is_requirementsManager ev \<or> is_inquire ev)
        (trace (snd (submitUserInput fuel e ms fd skip)))) \<and>
   map agent_input (filter is_streamText (trace (snd (submitUserInput fuel e ms fd skip)))) =
     map (\<lambda>j. Some (messages (prepare e ms fd skip) @ attempt_turns e 0 j))
       [0..<attempts (trace (snd (submitUserInput fuel e ms fd skip)))] \<and>
   list_all
     (\<lambda>ev. agent_input ev =
        Some (messages (prepare e ms fd skip) @
              attempt_turns e 0 (attempts (trace (snd (submitUserInput fuel e ms fd skip))))))
     (filter is_aiSuggestor (trace (snd (submitUserInput fuel e ms fd skip))))"
proof (intro conjI)
  show "length (drop (length ms - maxMessages) ms) = min maxMessages (length ms)"
    by simp
  show "suffix (drop (length ms - maxMessages) ms) ms"
    by (rule suffix_drop)
  show m: "messages (prepare e ms fd skip) =
     drop (length ms - maxMessages) ms @
     (case user_content e fd skip of
        None \<Rightarrow> []
      | Some c \<Rightarrow> if c \<noteq> [] then [\<lparr>role = User, content = Text c\<rparr>] else [])"
    by (rule messages_prepare)
  show "length (messages (prepare e ms fd skip)) \<le> Suc maxMessages"
    unfolding m by (auto split: option.splits)
  show "list_all (prefix (messages (prepare e ms fd skip)))
     (agent_inputs (trace (snd (submitUserInput fuel e ms fd skip))))"
  proof (unfold list_all_iff, intro ballI)
    fix a
    assume "a \<in> set (agent_inputs (trace (snd (submitUserInput fuel e ms fd skip))))"
    then obtain ev where "ev \<in> set (trace (snd (submitUserInput fuel e ms fd skip)))"
        "agent_input ev = Some a"
      unfolding agent_inputs_mem by blast
    then show "prefix (messages (prepare e ms fd skip)) a"
      by (rule run_agent_input(1))
  qed
  show "list_all (\<lambda>ev. agent_input ev = Some (messages (prepare e ms fd skip)))
     (filter (\<lambda>ev. is_requirementsManager ev \<or> is_inquire ev)
        (trace (snd (submitUserInput fuel e ms fd skip))))"
  proof (unfold list_all_iff, intro ballI)
    fix ev
    assume "ev \<in> set (filter (\<lambda>ev. is_requirementsManager ev \<or> is_inquire ev)
        (trace (snd (submitUserInput fuel e ms fd skip))))"
    then have ev: "ev \<in> set (trace (snd (submitUserInput fuel e ms fd skip)))"
      and k: "is_requirementsManager ev \<or> is_inquire ev"
      by simp_all
    from k obtain a where a: "agent_input ev = Some a"
      by (cases ev) auto
    show "agent_input ev = Some (messages (prepare e ms fd skip))"
      using run_agent_input(2) [OF ev a k] a by simp
  qed
  show "map agent_input (filter is_streamText (trace (snd (submitUserInput fuel e ms fd skip)))) =
     map (\<lambda>j. Some (messages (prepare e ms fd skip) @ attempt_turns e 0 j))
       [0..<attempts (trace (snd (submitUserInput fuel e ms fd skip)))]"
    by (rule run_streamText)
  show "list_all
     (\<lambda>ev. agent_input ev =
        Some (messages (prepare e ms fd skip) @
              attempt_turns e 0 (attempts (trace (snd (submitUserInput fuel e ms fd skip))))))
     (filter is_aiSuggestor (trace (snd (submitUserInput fuel e ms fd skip))))"
    by (rule run_suggestor)
qed

theorem window_truncation_witness:
  "length (drop (length long_history - maxMessages) long_history) = min maxMessages (length long_history) \<and>
   suffix (drop (length long_history - maxMessages) long_history) long_history \<and>
   messages (prepare (example_env None None retry_streams) long_history (Some [(''input'', ''x'')]) False) =
     drop (length long_history - maxMessages) long_history @
     (case user_content (example_env None None retry_streams) (Some [(''input'', ''x'')]) False of
        None \<Rightarrow> []
      | Some c \<Rightarrow> if c \<noteq> [] then [\<lparr>role = User, content = Text c\<rparr>] else []) \<and>
   length (messages (prepare (example_env None None retry_streams) long_history (Some [(''input'', ''x'')]) False))
     \<le> Suc maxMessages \<and>
   list_all (prefix (messages (prepare (example_env None None retry_streams) long_history (Some [(''input'', ''x'')]) False)))
     (agent_inputs (trace (snd (submitUserInput 2 (example_env None None retry_streams) long_history
        (Some [(''input'', ''x'')]) False)))) \<and>
   list_all (\<lambda>ev. agent_input ev =
        Some (messages (prepare (example_env None None retry_streams) long_history (Some [(''input'', ''x'')]) False)))
     (filter (\<lambda>ev. is_requirementsManager ev \<or> is_inquire ev)
        (trace (snd (submitUserInput 2 (example_env None None retry_streams) long_history
          (Some [(''input'', ''x'')]) False)))) \<and>
   map agent_input (filter is_streamText (trace (snd (submitUserInput 2 (example_env None None retry_streams)
        long_history (Some [(''input'', ''x'')]) False)))) =
     map (\<lambda>j. Some (messages (prepare (example_env None None retry_streams) long_history
                        (Some [(''input'', ''x'')]) False) @
                     attempt_turns (example_env None None retry_streams) 0 j))
       [0..<attempts (trace (snd (submitUserInput 2 (example_env None None retry_streams) long_history
          (Some [(''input'', ''x'')]) False)))] \<and>
   list_all
     (\<lambda>ev. agent_input ev =
        Some (messages (prepare (example_env None None retry_streams) long_history
                (Some [(''input'', ''x'')]) False) @
              attempt_turns (example_env None None retry_streams) 0
                (attempts (trace (snd (submitUserInput 2 (example_env None None retry_streams)
                   long_history (Some [(''input'', ''x'')]) False))))))
     (filter is_aiSuggestor (trace (snd (submitUserInput 2 (example_env None None retry_streams)
        long_history (Some [(''input'', ''x'')]) False))))"
  by (rule window_truncation)

text \<open>
  The claim as stated fails: with twelve retained turns and a submitted form the decision
  agent and the first writer attempt receive eleven turns, the second attempt twelve and
  the suggestion agent thirteen.
\<close>

theorem agents_receive_more_than_window:
  "maxMessages < length long_history \<and>
   map length (agent_inputs (trace (snd (submitUserInput 2 (example_env None None retry_streams)
      long_history (Some [(''input'', ''x'')]) False)))) = [11, 11, 12, 13]"
  by (simp add: submitUserInput_def processEvents_def decide_def generate_path_def prepare_def
      user_content_def writer_def emit_def push_def ai_get_def ai_update_def ai_done_def
      example_env_def retry_streams_def scenario_json_def long_history_def maxMessages_def
      init_vars_def init_locals_def agent_inputs_def map_filter_def assistant_turn_def
      user_turn_def Let_def numeral_2_eq_2)


section \<open>What one writer attempt records\<close>

text \<open>
  Claim C4, as amended. Within one writer attempt every tool-invocation event of the model
  stream is recorded, in order, in the tool-call list; tool-result events are not recorded
  (their case of the switch is commented out), so the tool-result list stays empty; after
  the stream ends the finished assistant turn (the text and the tool calls) is pushed onto
  \<open>messages\<close>, and no tool turn follows it.
\<close>

theorem writer_records_turn:
  "toolCalls (fst (writer e s)) = tool_calls_of (streams e (calls s)) \<and>
   toolResponses (fst (writer e s)) = [] \<and>
   messages (snd (writer e s)) =
     messages s @
     [\<lparr>role = Assistant,
       content = Parts (TextPart (fullResponse (fst (writer e s))) #
                        map CallPart (tool_calls_of (streams e (calls s))))\<rparr>]"
proof (intro conjI)
  show c: "toolCalls (fst (writer e s)) = tool_calls_of (streams e (calls s))"
    by (simp add: writer_fst toolCalls_for_await init_locals_def)
  show "toolResponses (fst (writer e s)) = []"
    by (simp add: writer_fst toolResponses_for_await init_locals_def)
  show "messages (snd (writer e s)) =
     messages s @
     [\<lparr>role = Assistant,
       content = Parts (TextPart (fullResponse (fst (writer e s))) #
                        map CallPart (tool_calls_of (streams e (calls s))))\<rparr>]"
    using c by (simp add: writer_snd writer_fst attempt_turn_def assistant_turn_def)
qed

text \<open>
  The claim as stated fails: a stream with a tool result leaves the tool-result list empty
  and only the assistant turn is pushed.
\<close>

theorem tool_results_not_recorded:
  "streams (example_env None None tool_streams) (calls start_state) =
     [ToolCallDelta (ToolCallPart ''c1'' ''search''),
      ToolResultDelta (ToolResultPart ''c1'' ''tip''), TextDelta ''x''] \<and>
   toolResponses (fst (writer (example_env None None tool_streams) start_state)) = [] \<and>
   messages (snd (writer (example_env None None tool_streams) start_state)) =
     [\<lparr>role = Assistant,
       content = Parts [TextPart ''x'', CallPart (ToolCallPart ''c1'' ''search'')]\<rparr>]"
  by (simp add: writer_def example_env_def tool_streams_def start_state_def init_locals_def
      emit_def push_def assistant_turn_def Let_def)

section \<open>The inquire branch\<close>

text \<open>
  Claim C5, as the code has it. In every inquire-branch exchange the committed state is
  the AI state followed by one assistant turn \<^verbatim>\<open>inquiry: <question>\<close>, nothing happens on
  the code stream (it is not even created), and \<^verbatim>\<open>isCollapsed\<close> ends with false. But
  \<^verbatim>\<open>isGenerating\<close>, created with true, is closed by \<^verbatim>\<open>done()\<close> without a final value, so
  its terminal value is true and not the false the claim states (the generation path
  closes it with \<^verbatim>\<open>done(false)\<close>).
\<close>

theorem inquire_branch_outcome:
  assumes ns: "\<not> skip" and inq: "decision e = Some ''inquire''"
  shows "fst (submitUserInput fuel e ms fd skip) = Completed \<and>
         committed (trace (snd (submitUserInput fuel e ms fd skip))) =
           [ai_get (prepare e ms fd skip) @
            [\<lparr>role = Assistant,
              content = Text (''inquiry: '' @ question_text (inquire_result e))\<rparr>]] \<and>
         filter (on_stream CodeStream) (trace (snd (submitUserInput fuel e ms fd skip))) = [] \<and>
         isCollapsed_value None (trace (snd (submitUserInput fuel e ms fd skip))) = Some False \<and>
         filter (is_done IsGenerating) (trace (snd (submitUserInput fuel e ms fd skip))) =
           [GeneratingDone None] \<and>
         isGenerating_value None (trace (snd (submitUserInput fuel e ms fd skip))) = Some True"
proof (intro conjI)
  note tr = submit_inquire(2) [OF ns inq, of fuel ms fd]
  show "fst (submitUserInput fuel e ms fd skip) = Completed"
    by (rule submit_inquire(1) [OF ns inq])
  show "committed (trace (snd (submitUserInput fuel e ms fd skip))) =
           [ai_get (prepare e ms fd skip) @
            [\<lparr>role = Assistant,
              content = Text (''inquiry: '' @ question_text (inquire_result e))\<rparr>]]"
    by (rule committed_inquire [OF ns inq])
  show "filter (on_stream CodeStream) (trace (snd (submitUserInput fuel e ms fd skip))) = []"
    unfolding tr by (simp add: prepare_off_code_stream ui_events_off_code_stream)
  show "isCollapsed_value None (trace (snd (submitUserInput fuel e ms fd skip))) = Some False"
    unfolding tr
    by (simp add: isCollapsed_value_append isCollapsed_value_prepare isCollapsed_value_ui)
  show "filter (is_done IsGenerating) (trace (snd (submitUserInput fuel e ms fd skip))) =
           [GeneratingDone None]"
    unfolding tr by (simp add: prepare_no_done ui_events_no_done)
  show "isGenerating_value None (trace (snd (submitUserInput fuel e ms fd skip))) = Some True"
    unfolding tr
    by (simp add: isGenerating_value_append isGenerating_value_prepare isGenerating_value_ui)
qed

theorem inquire_branch_outcome_witness:
  "decision scenario_env = Some ''inquire'' \<and>
   fst (submitUserInput 0 scenario_env [] (Some scenario_form) False) = Completed \<and>
   map last (committed (trace (snd (submitUserInput 0 scenario_env [] (Some scenario_form) False)))) =
     [\<lparr>role = Assistant, content = Text ''inquiry: What should the token symbol be?''\<rparr>] \<and>
   isCollapsed_value None (trace (snd (submitUserInput 0 scenario_env [] (Some scenario_form) False))) =
     Some False \<and>
   filter (is_done IsGenerating) (trace (snd (submitUserInput 0 scenario_env [] (Some scenario_form) False))) =
     [GeneratingDone None] \<and>
   isGenerating_value None (trace (snd (submitUserInput 0 scenario_env [] (Some scenario_form) False))) =
     Some True"
proof -
  have ns: "\<not> False"
    by simp
  have inq: "decision scenario_env = Some ''inquire''"
    by (simp add: scenario_env_def example_env_def)
  have q: "question_text (inquire_result scenario_env) = ''What should the token symbol be?''"
    by (simp add: scenario_env_def example_env_def question_text_def)
  show ?thesis
    using inquire_branch_outcome [OF ns inq, of 0 "[]" "Some scenario_form"] inq q by simp
qed

section \<open>A single successful attempt\<close>

text \<open>
  Claim C6. In a generate-branch exchange whose first model stream carries no error event
  and at least one non-empty text fragment (whatever else it carries: the event that
  closes the stream, tool calls), exactly one writer attempt is made, the code that is
  committed is the concatenation of the non-empty fragments in the order they arrived,
  and the values pushed to the code stream are, in order, the concatenations of the first
  one, two, ... fragments.
\<close>

theorem single_attempt_concatenates:
  assumes gen: "skip \<or> decision e \<noteq> Some ''inquire''"
      and noerr: "ErrorDelta \<notin> set (streams e 0)"
      and some: "text_fragments (streams e 0) \<noteq> []"
  shows "fst (submitUserInput (Suc fuel) e ms fd skip) = Completed \<and>
         attempts (trace (snd (submitUserInput (Suc fuel) e ms fd skip))) = 1 \<and>
         map last (committed (trace (snd (submitUserInput (Suc fuel) e ms fd skip)))) =
           [\<lparr>role = Assistant, content = Text (concat (text_fragments (streams e 0)))\<rparr>] \<and>
         code_updates (trace (snd (submitUserInput (Suc fuel) e ms fd skip))) =
           map (\<lambda>i. concat (take (Suc i) (text_fragments (streams e 0))))
             [0..<length (text_fragments (streams e 0))]"
proof -
  have wt: "writer_text (streams e 0) = concat (text_fragments (streams e 0))"
    by (rule clean_text [OF noerr])
  have ne: "writer_text (streams e 0) \<noteq> []"
    unfolding wt by (rule concat_fragments_nonempty [OF some])
  have em: "\<forall>j<0. writer_text (streams e j) = []"
    by simp
  have fu: "0 < Suc fuel"
    by simp
  have cu: "code_updates (writer_events (streams e 0)) =
      map (\<lambda>i. concat (take (Suc i) (text_fragments (streams e 0))))
        [0..<length (text_fragments (streams e 0))]"
    unfolding writer_events_def code_updates_no_error [OF noerr]
    by (simp add: running_concat_eq init_locals_def)
  show ?thesis
    using submit_exit(1) [OF gen em ne fu] attempts_exit [OF gen em ne fu]
      committed_exit [OF gen em ne fu] code_updates_exit [OF gen em ne fu] wt cu
    by simp
qed

theorem single_attempt_concatenates_witness:
  "streams (example_env (Some ''proceed'') None finished_streams) 0 =
     [TextDelta ''pragma '', TextDelta ''solidity ^0.8.0;'', FinishDelta] \<and>
   text_fragments (streams (example_env (Some ''proceed'') None finished_streams) 0) =
     [''pragma '', ''solidity ^0.8.0;''] \<and>
   fst (submitUserInput 1 (example_env (Some ''proceed'') None finished_streams) [] None False) = Completed \<and>
   attempts (trace (snd (submitUserInput 1 (example_env (Some ''proceed'') None finished_streams) [] None False))) = 1 \<and>
   map last (committed (trace (snd (submitUserInput 1 (example_env (Some ''proceed'') None finished_streams) [] None False)))) =
     [\<lparr>role = Assistant, content = Text ''pragma solidity ^0.8.0;''\<rparr>] \<and>
   code_updates (trace (snd (submitUserInput 1 (example_env (Some ''proceed'') None finished_streams) [] None False))) =
     [''pragma '', ''pragma solidity ^0.8.0;'']"
proof -
  let ?E = "example_env (Some ''proceed'') None finished_streams"
  have g: "False \<or> decision ?E \<noteq> Some ''inquire''"
    by (simp add: example_env_def)
  have s: "streams ?E 0 = [TextDelta ''pragma '', TextDelta ''solidity ^0.8.0;'', FinishDelta]"
    by (simp add: example_env_def finished_streams_def)
  have f: "text_fragments (streams ?E 0) = [''pragma '', ''solidity ^0.8.0;'']"
    by (simp add: s)
  have n: "ErrorDelta \<notin> set (streams ?E 0)"
    by (simp add: s)
  have c: "text_fragments (streams ?E 0) \<noteq> []"
    by (simp add: f)
  have u: "map (\<lambda>i. concat (take (Suc i) [''pragma '', ''solidity ^0.8.0;'']))
             [0..<length [''pragma '', ''solidity ^0.8.0;'']] =
      [''pragma '', ''pragma solidity ^0.8.0;'']"
    by (simp add: upt_rec)
  show ?thesis
    using single_attempt_concatenates [OF g n c, of 0 "[]" None] s u unfolding f by simp
qed

section \<open>Error events\<close>

text \<open>
  Claim C7. When the model stream of an attempt holds an error event, the loop over the
  stream goes on with the events after it from locals in which \<open>hasError\<close> is set and
  the error notice is appended to the text buffer (tool calls after the error are still
  recorded); the attempt's text is then non-empty, so the retry loop accepts the attempt
  as the final one, the suggestion agent is not called and no follow-up section is
  appended.
\<close>

theorem error_event_handling:
  assumes gen: "skip \<or> decision e \<noteq> Some ''inquire''"
      and empty: "\<forall>k<N. writer_text (streams e k) = []"
      and err: "streams e N = pre @ ErrorDelta # post"
      and fuel: "N < fuel"
  shows "for_await (streams e N) init_locals =
           (case for_await pre init_locals of (l1, e1) \<Rightarrow>
              (case for_await post
                      (l1\<lparr>hasError := True, fullResponse := fullResponse l1 @ error_notice\<rparr>)
               of (l2, e2) \<Rightarrow> (l2, e1 @ e2))) \<and>
         hasError (fst (for_await (streams e N) init_locals)) \<and>
         writer_text (streams e N) = writer_text pre @ error_notice @ writer_text post \<and>
         writer_text (streams e N) \<noteq> [] \<and>
         toolCalls (fst (for_await (streams e N) init_locals)) = tool_calls_of pre @ tool_calls_of post \<and>
         fst (submitUserInput fuel e ms fd skip) = Completed \<and>
         attempts (trace (snd (submitUserInput fuel e ms fd skip))) = Suc N \<and>
         map last (committed (trace (snd (submitUserInput fuel e ms fd skip)))) =
           [\<lparr>role = Assistant, content = Text (writer_text (streams e N))\<rparr>] \<and>
         filter is_aiSuggestor (trace (snd (submitUserInput fuel e ms fd skip))) = [] \<and>
         UiAppend followupSection \<notin> set (trace (snd (submitUserInput fuel e ms fd skip)))"
proof -
  have mem: "ErrorDelta \<in> set (streams e N)"
    by (simp add: err)
  note ne = error_text_nonempty [OF mem]
  have a: "for_await (streams e N) init_locals =
           (case for_await pre init_locals of (l1, e1) \<Rightarrow>
              (case for_await post
                      (l1\<lparr>hasError := True, fullResponse := fullResponse l1 @ error_notice\<rparr>)
               of (l2, e2) \<Rightarrow> (l2, e1 @ e2)))"
    unfolding err by (rule for_await_error)
  have b: "hasError (fst (for_await (streams e N) init_locals))"
    using mem by (simp add: hasError_for_await)
  have c: "writer_text (streams e N) = writer_text pre @ error_notice @ writer_text post"
    by (simp add: writer_text_eq err)
  have d: "toolCalls (fst (for_await (streams e N) init_locals)) = tool_calls_of pre @ tool_calls_of post"
    by (simp add: toolCalls_for_await init_locals_def err tool_calls_of_append)
  show ?thesis
    using a b c d ne submit_exit(1) [OF gen empty ne fuel] attempts_exit [OF gen empty ne fuel]
      committed_exit [OF gen empty ne fuel] error_skips_suggestor [OF gen empty mem fuel]
    by simp
qed

theorem error_event_handling_witness:
  "streams (example_env None None error_streams) 0 =
     [TextDelta ''contract''] @ ErrorDelta # [ToolCallDelta (ToolCallPart ''c1'' ''search'')] \<and>
   hasError (fst (for_await (streams (example_env None None error_streams) 0) init_locals)) \<and>
   writer_text (streams (example_env None None error_streams) 0) = ''contract'' @ error_notice \<and>
   toolCalls (fst (for_await (streams (example_env None None error_streams) 0) init_locals)) =
     [ToolCallPart ''c1'' ''search''] \<and>
   fst (submitUserInput 1 (example_env None None error_streams) [] None True) = Completed \<and>
   attempts (trace (snd (submitUserInput 1 (example_env None None error_streams) [] None True))) = 1 \<and>
   map last (committed (trace (snd (submitUserInput 1 (example_env None None error_streams) [] None True)))) =
     [\<lparr>role = Assistant, content = Text (''contract'' @ error_notice)\<rparr>] \<and>
   filter is_aiSuggestor (trace (snd (submitUserInput 1 (example_env None None error_streams) [] None True))) = [] \<and>
   UiAppend followupSection \<notin> set (trace (snd (submitUserInput 1 (example_env None None error_streams) [] None True)))"
proof -
  let ?E = "example_env None None error_streams"
  have g: "True \<or> decision ?E \<noteq> Some ''inquire''"
    by simp
  have em: "\<forall>k<0. writer_text (streams ?E k) = []"
    by simp
  have s: "streams ?E 0 =
     [TextDelta ''contract''] @ ErrorDelta # [ToolCallDelta (ToolCallPart ''c1'' ''search'')]"
    by (simp add: example_env_def error_streams_def)
  have f: "(0::nat) < 1"
    by simp
  have w: "writer_text [TextDelta ''contract''] = ''contract''"
      "writer_text [ToolCallDelta (ToolCallPart ''c1'' ''search'')] = []"
    by (simp_all add: writer_text_eq)
  show ?thesis
    using error_event_handling [OF g em s f, of "[]" None] s w by simp
qed

section \<open>Skipping the classification\<close>

text \<open>
  Claim C8. For every submission with \<^verbatim>\<open>skip\<close> set, the decision agent is not invoked (no
  event of it in the trace, whatever the number of attempts), the action is the default
  \<^verbatim>\<open>proceed\<close>, the user turn pushed onto \<open>messages\<close> has the skip sentinel as its
  content, and the run is the generation path: no inquiry is made, \<^verbatim>\<open>isCollapsed\<close> is
  closed with true, the code stream is created, the spinner is shown, and the first writer
  attempt is handed the list that ends with the sentinel turn.
\<close>

theorem skip_runs_generation:
  "fst (decide e True s) = ''proceed'' \<and> snd (decide e True s) = s \<and>
   user_content e fd True = Some skip_sentinel \<and>
   messages (prepare e ms fd True) =
     drop (length ms - maxMessages) ms @ [\<lparr>role = User, content = Text skip_sentinel\<rparr>] \<and>
   submitUserInput fuel e ms fd True = generate_path fuel e (prepare e ms fd True) \<and>
   filter is_requirementsManager (trace (snd (submitUserInput fuel e ms fd True))) = [] \<and>
   filter is_inquire (trace (snd (submitUserInput fuel e ms fd True))) = [] \<and>
   prefix
     (trace (prepare e ms fd True) @
      [CollapsedDone (Some True), CodeStreamCreate, UiUpdate thinkingSpinner,
       StreamText (messages (prepare e ms fd True))])
     (trace (snd (submitUserInput (Suc fuel) e ms fd True)))"
proof (intro conjI)
  show "fst (decide e True s) = ''proceed''"
    by (simp add: decide_fst)
  show d: "snd (decide e True s) = s"
    by (simp add: decide_snd)
  show u: "user_content e fd True = Some skip_sentinel"
    by (simp add: user_content_def)
  show "messages (prepare e ms fd True) =
     drop (length ms - maxMessages) ms @ [\<lparr>role = User, content = Text skip_sentinel\<rparr>]"
    by (simp add: messages_prepare u skip_sentinel_nonempty)
  show "submitUserInput fuel e ms fd True = generate_path fuel e (prepare e ms fd True)"
    using submit_generate [of True e fuel ms fd] by (simp add: decide_snd)
  show "filter is_requirementsManager (trace (snd (submitUserInput fuel e ms fd True))) = []"
    by (rule run_no_classifier)
  show "filter is_inquire (trace (snd (submitUserInput fuel e ms fd True))) = []"
    by (rule run_no_inquiry)
  show "prefix
     (trace (prepare e ms fd True) @
      [CollapsedDone (Some True), CodeStreamCreate, UiUpdate thinkingSpinner,
       StreamText (messages (prepare e ms fd True))])
     (trace (snd (submitUserInput (Suc fuel) e ms fd True)))"
    using first_attempt_prefix [of True e ms fd fuel] by (simp add: decide_snd)
qed

section \<open>The error notice and the code stream\<close>




section \<open>A missing question\<close>

text \<open>
  Claim C10. When the inquiry agent returns nothing, or an object without a question, the
  inquire branch still runs to its end, commits the assistant turn
  \<^verbatim>\<open>inquiry: undefined\<close> and closes all three streams; the run is the very run in which
  the agent had returned the question \<^verbatim>\<open>undefined\<close>, so a missing question has no
  outcome of its own.
\<close>

theorem missing_question_commits_undefined:
  assumes ns: "\<not> skip" and inq: "decision e = Some ''inquire''"
      and missing: "inquire_result e = None \<or> inquire_result e = Some (Inquiry None)"
  shows "fst (submitUserInput fuel e ms fd skip) = Completed \<and>
         committed (trace (snd (submitUserInput fuel e ms fd skip))) =
           [ai_get (prepare e ms fd skip) @
            [\<lparr>role = Assistant, content = Text ''inquiry: undefined''\<rparr>]] \<and>
         done_once UiStream (trace (snd (submitUserInput fuel e ms fd skip))) \<and>
         done_once IsGenerating (trace (snd (submitUserInput fuel e ms fd skip))) \<and>
         done_once IsCollapsed (trace (snd (submitUserInput fuel e ms fd skip))) \<and>
         submitUserInput fuel e ms fd skip =
           submitUserInput fuel (e\<lparr>inquire_result := Some (Inquiry (Some ''undefined''))\<rparr>) ms fd skip"
proof -
  have q: "question_text (inquire_result e) = ''undefined''"
    using missing by (auto simp: question_text_def)
  let ?e' = "e\<lparr>inquire_result := Some (Inquiry (Some ''undefined''))\<rparr>"
  have q': "question_text (inquire_result ?e') = ''undefined''"
    by (simp add: question_text_def)
  have u: "user_content ?e' fd b = user_content e fd b" for b
    by (simp add: user_content_def split: option.splits)
  have p: "prepare ?e' ms fd b = prepare e ms fd b" for b
    by (simp add: prepare_def u)
  have same: "submitUserInput fuel e ms fd skip = submitUserInput fuel ?e' ms fd skip"
    using ns inq q q'
    by (simp add: submitUserInput_def processEvents_def decide_def inquire_path_def p)
  show ?thesis
    using submit_inquire(1) [OF ns inq, of fuel ms fd] committed_inquire [OF ns inq, of fuel ms fd]
      done_once_inquire [OF ns inq, of fuel ms fd] q same
    by simp
qed

theorem missing_question_commits_undefined_witness:
  "inquire_result (example_env (Some ''inquire'') None fragment_streams) = None \<and>
   fst (submitUserInput 0 (example_env (Some ''inquire'') None fragment_streams) [] (Some scenario_form) False) =
     Completed \<and>
   map last (committed (trace (snd (submitUserInput 0 (example_env (Some ''inquire'') None fragment_streams)
      [] (Some scenario_form) False)))) =
     [\<lparr>role = Assistant, content = Text ''inquiry: undefined''\<rparr>] \<and>
   done_once UiStream (trace (snd (submitUserInput 0 (example_env (Some ''inquire'') None fragment_streams)
      [] (Some scenario_form) False))) \<and>
   done_once IsGenerating (trace (snd (submitUserInput 0 (example_env (Some ''inquire'') None fragment_streams)
      [] (Some scenario_form) False))) \<and>
   done_once IsCollapsed (trace (snd (submitUserInput 0 (example_env (Some ''inquire'') None fragment_streams)
      [] (Some scenario_form) False)))"
proof -
  let ?E = "example_env (Some ''inquire'') None fragment_streams"
  have ns: "\<not> False"
    by simp
  have inq: "decision ?E = Some ''inquire''"
    by (simp add: example_env_def)
  have r: "inquire_result ?E = None"
    by (simp add: example_env_def)
  then have m: "inquire_result ?E = None \<or> inquire_result ?E = Some (Inquiry None)"
    by simp
  note t = missing_question_commits_undefined [OF ns inq m, of 0 "[]" "Some scenario_form"]
  have c: "committed (trace (snd (submitUserInput 0 ?E [] (Some scenario_form) False))) =
      [ai_get (prepare ?E [] (Some scenario_form) False) @
       [\<lparr>role = Assistant, content = Text ''inquiry: undefined''\<rparr>]]"
    using t by blast
  have "fst (submitUserInput 0 ?E [] (Some scenario_form) False) = Completed"
    using t by blast
  moreover have "map last (committed (trace (snd (submitUserInput 0 ?E [] (Some scenario_form) False)))) =
      [\<lparr>role = Assistant, content = Text ''inquiry: undefined''\<rparr>]"
    unfolding c by simp
  moreover have "done_once UiStream (trace (snd (submitUserInput 0 ?E [] (Some scenario_form) False)))"
      "done_once IsGenerating (trace (snd (submitUserInput 0 ?E [] (Some scenario_form) False)))"
      "done_once IsCollapsed (trace (snd (submitUserInput 0 ?E [] (Some scenario_form) False)))"
    using t by blast+
  ultimately show ?thesis
    using r by blast
qed

end
